theory Spec2Isabelle
  imports Main "HOL-Library.Word" "HOL-Library.Multiset"
begin

unbundle bit_operations_syntax

section \<open>Space-time states (class State)\<close>

text \<open>
  A \<open>State\<close> object has the fields \<open>_x\<close>, \<open>_y\<close>, \<open>_g\<close>, \<open>_cost\<close> and \<open>_parent\<close>.
  The selectors carry the names of the source's getters. Python integers are unbounded,
  so every numeric field is an \<open>int\<close>. A parent link is a value of the same type; the
  search never mutates a state after it has been linked as a parent, so sharing is not
  observable and the chain of parents is a finite value.
\<close>

datatype State = State (get_x: int) (get_y: int) (get_g: int) (get_cost: int)
  (get_parent: "State option")

definition State_init :: "int \<Rightarrow> int \<Rightarrow> State" where
  "State_init x y = State x y 0 0 None"

definition set_g :: "State \<Rightarrow> int \<Rightarrow> State" where
  "set_g s g = State (get_x s) (get_y s) g (get_cost s) (get_parent s)"

definition set_cost :: "State \<Rightarrow> int \<Rightarrow> State" where
  "set_cost s c = State (get_x s) (get_y s) (get_g s) c (get_parent s)"

definition set_parent :: "State \<Rightarrow> State \<Rightarrow> State" where
  "set_parent s p = State (get_x s) (get_y s) (get_g s) (get_cost s) (Some p)"

text \<open>\<open>__lt__\<close>: the order of the OPEN list compares the costs only.\<close>

definition State_lt :: "State \<Rightarrow> State \<Rightarrow> bool" where
  "State_lt a b = (get_cost a < get_cost b)"

text \<open>\<open>__eq__\<close>: position and time.\<close>

definition State_eq :: "State \<Rightarrow> State \<Rightarrow> bool" where
  "State_eq a b = (get_x a = get_x b \<and> get_y a = get_y b \<and> get_g a = get_g b)"

definition is_goal :: "State \<Rightarrow> State \<Rightarrow> bool" where
  "is_goal s goal = (get_x s = get_x goal \<and> get_y s = get_y goal)"

definition get_heuristic :: "State \<Rightarrow> State \<Rightarrow> int" where
  "get_heuristic s target =
     (let dist_x = \<bar>get_x s - get_x target\<bar>;
          dist_y = \<bar>get_y s - get_y target\<bar>
      in dist_x + dist_y)"

subsection \<open>The built-in hash of integers and of pairs\<close>

text \<open>
  \<open>State.__hash__\<close> returns \<open>hash((y * map_width + x, g))\<close>. The built-in \<open>hash\<close> of
  CPython (64-bit build) reduces an integer modulo the Mersenne prime \<open>2^61 - 1\<close>, keeps
  the sign and avoids the value \<open>-1\<close>; the hash of a tuple folds the hashes of its items
  into a 64-bit accumulator (multiply, rotate left by 31, multiply) and adds the length
  mixed with a constant.
\<close>

definition PyHASH_MODULUS :: int where
  "PyHASH_MODULUS = 2 ^ 61 - 1"

definition py_hash_int :: "int \<Rightarrow> int" where
  "py_hash_int n =
     (let r = (if n < 0 then - (\<bar>n\<bar> mod PyHASH_MODULUS) else \<bar>n\<bar> mod PyHASH_MODULUS)
      in if r = - 1 then - 2 else r)"

definition XXPRIME_1 :: "64 word" where
  "XXPRIME_1 = 11400714785074694791"

definition XXPRIME_2 :: "64 word" where
  "XXPRIME_2 = 14029467366897019727"

definition XXPRIME_5 :: "64 word" where
  "XXPRIME_5 = 2870177450012600261"

definition XXROTATE :: "64 word \<Rightarrow> 64 word" where
  "XXROTATE v = (push_bit 31 v) OR (drop_bit 33 v)"

definition tuplehash_lane :: "64 word \<Rightarrow> int \<Rightarrow> 64 word" where
  "tuplehash_lane acc item =
     XXROTATE (acc + word_of_int (py_hash_int item) * XXPRIME_2) * XXPRIME_1"

definition py_hash_pair :: "int \<Rightarrow> int \<Rightarrow> int" where
  "py_hash_pair a b =
     (let acc = tuplehash_lane (tuplehash_lane XXPRIME_5 a) b;
          acc = acc + (2 XOR (XXPRIME_5 XOR 3527539))
      in if acc = - 1 then 1546275796 else sint acc)"

text \<open>
  \<open>State.map_width\<close> is a class attribute set by the map loader; it is the parameter
  \<open>map_width\<close> of the hash.
\<close>

definition State_hash :: "int \<Rightarrow> State \<Rightarrow> int" where
  "State_hash map_width s = py_hash_pair (get_y s * map_width + get_x s) (get_g s)"

text \<open>The pair that is handed to \<open>hash\<close>.\<close>

definition State_key :: "int \<Rightarrow> State \<Rightarrow> int \<times> int" where
  "State_key map_width s = (get_y s * map_width + get_x s, get_g s)"

definition in_bounds :: "int \<Rightarrow> int \<Rightarrow> State \<Rightarrow> bool" where
  "in_bounds map_width map_height s =
     (0 \<le> get_x s \<and> get_x s < map_width \<and> 0 \<le> get_y s \<and> get_y s < map_height)"


section \<open>Python exceptions\<close>

datatype py_error = IndexError | KeyError | TypeError

section \<open>Constraint-tree nodes (class CBSState)\<close>

text \<open>
  The constraints of one agent are a dictionary from a cell \<open>(x, y)\<close> to the set of
  forbidden time steps. The map object is used through its method \<open>successors\<close> only, so
  it is represented by that method: a function from a state and the constraints of the
  agent to the list of child states.
\<close>

type_synonym constraints = "int \<times> int \<rightharpoonup> int set"

type_synonym gridded_map = "State \<Rightarrow> constraints \<Rightarrow> State list"

record CBSState =
  c_cost :: int
  c_constraints :: "nat \<rightharpoonup> constraints"
  c_map :: gridded_map
  c_starts :: "State list"
  c_goals :: "State list"
  c_k :: nat
  c_paths :: "nat \<rightharpoonup> State list option"

text \<open>The constructor: one empty dictionary of constraints per agent, no paths.\<close>

definition CBSState_init :: "gridded_map \<Rightarrow> State list \<Rightarrow> State list \<Rightarrow> CBSState" where
  "CBSState_init gm starts goals =
     \<lparr> c_cost = 0,
       c_constraints = (\<lambda>i. if i < length starts then Some Map.empty else None),
       c_map = gm,
       c_starts = starts,
       c_goals = goals,
       c_k = length starts,
       c_paths = Map.empty \<rparr>"


subsection \<open>Conflict detection (CBSState.is_solution)\<close>

text \<open>
  \<open>_paths\<close> is a dictionary from the agent to its path; \<open>compute_cost\<close> stores \<open>None\<close>
  for an agent whose search failed. Reading the path of an agent that has no entry raises
  \<open>KeyError\<close>, and \<open>len(None)\<close> raises \<open>TypeError\<close>.

  The set \<open>step_set\<close> holds states; membership uses \<open>__hash__\<close> and \<open>__eq__\<close>. Equal
  states have equal hashes, so a state is found in the set exactly when the set holds a
  state equal to it by \<open>__eq__\<close>. The set is kept as the list of the states added.
\<close>

type_synonym conflict = "State \<times> int"

type_synonym step_acc = "State list \<times> nat \<times> bool \<times> conflict option"

fun is_solution_agents ::
  "(nat \<rightharpoonup> State list option) \<Rightarrow> nat \<Rightarrow> nat list \<Rightarrow> step_acc \<Rightarrow> py_error + step_acc" where
  "is_solution_agents ps time_step [] acc = Inr acc"
| "is_solution_agents ps time_step (i # rest) (step_set, agents_finished, valid_solution, conflict_tuple) =
     (case ps i of
        None \<Rightarrow> Inl KeyError
      | Some None \<Rightarrow> Inl TypeError
      | Some (Some p) \<Rightarrow>
          if time_step < length p then
            (let current_state = p ! time_step in
             if list_ex (\<lambda>e. State_eq e current_state) step_set
             then is_solution_agents ps time_step rest
                    (step_set, agents_finished, False, Some (current_state, get_g current_state))
             else is_solution_agents ps time_step rest
                    (step_set @ [current_state], agents_finished, valid_solution, conflict_tuple))
          else is_solution_agents ps time_step rest
                 (step_set, agents_finished + 1, valid_solution, conflict_tuple))"

text \<open>The length of the path of an agent, 0 when there is none.\<close>

definition path_len :: "(nat \<rightharpoonup> State list option) \<Rightarrow> nat \<Rightarrow> nat" where
  "path_len ps i = (case ps i of Some (Some p) \<Rightarrow> length p | _ \<Rightarrow> 0)"

definition max_path_len :: "(nat \<rightharpoonup> State list option) \<Rightarrow> nat \<Rightarrow> nat" where
  "max_path_len ps k = fold max (map (path_len ps) [0..<k]) 0"

lemma path_len_Some [simp]: "ps i = Some (Some p) \<Longrightarrow> path_len ps i = length p"
  by (simp add: path_len_def)

lemma is_solution_agents_finished:
  "is_solution_agents ps t agents (ss, fin, v, c) = Inr (ss', fin', v', c') \<Longrightarrow>
   fin' = fin + length (filter (\<lambda>i. \<not> t < path_len ps i) agents)"
proof (induction agents arbitrary: ss fin v c)
  case Nil
  then show ?case by simp
next
  case (Cons i rest)
  from Cons.prems obtain p where p: "ps i = Some (Some p)"
    by (auto split: option.splits)
  show ?case
  proof (cases "t < length p")
    case True
    with Cons.prems p Cons.IH show ?thesis
      by (auto simp: Let_def split: if_splits)
  next
    case False
    with Cons.prems p Cons.IH [of ss "fin + 1" v c] show ?thesis
      by simp
  qed
qed

lemma fold_max_ge: "(m::nat) \<le> fold max xs m"
proof (induction xs arbitrary: m)
  case Nil
  then show ?case by simp
next
  case (Cons a xs)
  have "m \<le> max a m" by simp
  also have "\<dots> \<le> fold max xs (max a m)" by (rule Cons.IH)
  finally show ?case by simp
qed

lemma fold_max_mem: "(x::nat) \<in> set xs \<Longrightarrow> x \<le> fold max xs m"
proof (induction xs arbitrary: m)
  case Nil
  then show ?case by simp
next
  case (Cons a xs)
  show ?case
  proof (cases "x = a")
    case True
    have "a \<le> max a m" by simp
    also have "\<dots> \<le> fold max xs (max a m)" by (rule fold_max_ge)
    finally show ?thesis using True by simp
  next
    case False
    with Cons show ?thesis by simp
  qed
qed

lemma path_len_le_max: "i < k \<Longrightarrow> path_len ps i \<le> max_path_len ps k"
  unfolding max_path_len_def by (rule fold_max_mem) simp

lemma is_solution_agents_unfinished:
  assumes "is_solution_agents ps t [0..<k] ([], 0, v, c) = Inr (ss', fin', v', c')"
    and "fin' < k"
  shows "t < max_path_len ps k"
proof -
  from is_solution_agents_finished [OF assms(1)]
  have "fin' = length (filter (\<lambda>i. \<not> t < path_len ps i) [0..<k])" by simp
  with assms(2) have "length (filter (\<lambda>i. \<not> t < path_len ps i) [0..<k]) \<noteq> length [0..<k]"
    by simp
  then have "\<not> (\<forall>i \<in> set [0..<k]. \<not> t < path_len ps i)"
    by (metis filter_True)
  then obtain i where "i < k" "t < path_len ps i"
    by auto
  then show ?thesis
    using path_len_le_max [of i k ps] by simp
qed

text \<open>The loop over the time steps: it runs until a time step at which every agent is finished.\<close>

function is_solution_loop ::
  "(nat \<rightharpoonup> State list option) \<Rightarrow> nat \<Rightarrow> nat \<Rightarrow> nat \<Rightarrow> bool \<Rightarrow> conflict option
     \<Rightarrow> py_error + (bool \<times> conflict option)" where
  "is_solution_loop ps k time_step agents_finished valid_solution conflict_tuple =
     (if agents_finished < k then
        (case is_solution_agents ps time_step [0..<k] ([], 0, valid_solution, conflict_tuple) of
           Inl e \<Rightarrow> Inl e
         | Inr (step_set, agents_finished', valid_solution', conflict_tuple') \<Rightarrow>
             is_solution_loop ps k (time_step + 1) agents_finished' valid_solution' conflict_tuple')
      else Inr (valid_solution, conflict_tuple))"
  by pat_completeness auto
termination
proof (relation "measure (\<lambda>(ps, k, t, fin, v, c).
    if fin < k then 2 + (max_path_len ps k - t) else 0)", goal_cases)
  case 1
  then show ?case by simp
next
  case (2 ps k t fin v c r ss rest fin' rest' v' c')
  then have run: "is_solution_agents ps t [0..<k] ([], 0, v, c) = Inr (ss, fin', v', c')"
    by simp
  show ?case
  proof (cases "fin' < k")
    case True
    from is_solution_agents_unfinished [OF run True] 2(1) True show ?thesis by simp
  next
    case False
    with 2(1) show ?thesis by simp
  qed
qed

definition is_solution :: "CBSState \<Rightarrow> py_error + (bool \<times> conflict option)" where
  "is_solution st = is_solution_loop (c_paths st) (c_k st) 0 0 True None"

subsection \<open>Branching (CBSState.successors and CBSState.set_constraint)\<close>

text \<open>Indexing a list with an integer: a negative index counts from the end.\<close>

definition py_index :: "'a list \<Rightarrow> int \<Rightarrow> py_error + 'a" where
  "py_index xs i =
     (if 0 \<le> i then
        (if i < int (length xs) then Inr (xs ! nat i) else Inl IndexError)
      else
        (if - int (length xs) \<le> i then Inr (xs ! nat (int (length xs) + i))
         else Inl IndexError))"

definition set_constraint :: "CBSState \<Rightarrow> State \<Rightarrow> int \<Rightarrow> nat \<Rightarrow> py_error + CBSState" where
  "set_constraint st conflict_state conflict_time agent =
     (case c_constraints st agent of
        None \<Rightarrow> Inl KeyError
      | Some ca \<Rightarrow>
          (let cell = (get_x conflict_state, get_y conflict_state);
               ca1 = (if ca cell = None then ca(cell \<mapsto> {}) else ca)
           in case ca1 cell of
                None \<Rightarrow> Inl KeyError
              | Some ts \<Rightarrow>
                  Inr (st\<lparr>c_constraints :=
                         (c_constraints st)(agent \<mapsto> ca1(cell \<mapsto> insert conflict_time ts))\<rparr>)))"

text \<open>The agents whose path holds the conflicting state at the conflict time.\<close>

fun conflicting_agents ::
  "(nat \<rightharpoonup> State list option) \<Rightarrow> State \<Rightarrow> int \<Rightarrow> nat list \<Rightarrow> nat list \<Rightarrow> py_error + nat list" where
  "conflicting_agents ps conflict_state conflict_time [] agents = Inr agents"
| "conflicting_agents ps conflict_state conflict_time (i # rest) agents =
     (case ps i of
        None \<Rightarrow> Inl KeyError
      | Some None \<Rightarrow> Inl TypeError
      | Some (Some p) \<Rightarrow>
          if conflict_time < int (length p) then
            (case py_index p conflict_time of
               Inl e \<Rightarrow> Inl e
             | Inr s \<Rightarrow>
                 if State_eq s conflict_state
                 then conflicting_agents ps conflict_state conflict_time rest (agents @ [i])
                 else conflicting_agents ps conflict_state conflict_time rest agents)
          else conflicting_agents ps conflict_state conflict_time rest agents)"

text \<open>
  A child is a new node for the same map, starts and goals whose constraints are a deep
  copy of the constraints of the parent, with one constraint set.
\<close>

definition make_child :: "CBSState \<Rightarrow> State \<Rightarrow> int \<Rightarrow> nat \<Rightarrow> py_error + CBSState" where
  "make_child st conflict_state conflict_time agent =
     set_constraint
       ((CBSState_init (c_map st) (c_starts st) (c_goals st))\<lparr>c_constraints := c_constraints st\<rparr>)
       conflict_state conflict_time agent"

definition successors :: "CBSState \<Rightarrow> py_error + CBSState list" where
  "successors st =
     (case is_solution st of
        Inl e \<Rightarrow> Inl e
      | Inr (valid, conflict_tuple) \<Rightarrow>
          (case conflict_tuple of
             None \<Rightarrow> Inr []
           | Some (conflict_state, conflict_time) \<Rightarrow>
               if \<not> valid then
                 (case conflicting_agents (c_paths st) conflict_state conflict_time [0..<c_k st] [] of
                    Inl e \<Rightarrow> Inl e
                  | Inr agents \<Rightarrow>
                      if length agents \<ge> 2 then
                        (case make_child st conflict_state conflict_time (agents ! 0) of
                           Inl e \<Rightarrow> Inl e
                         | Inr c1 \<Rightarrow>
                             (case make_child st conflict_state conflict_time (agents ! 1) of
                                Inl e \<Rightarrow> Inl e
                              | Inr c2 \<Rightarrow> Inr [c1, c2]))
                      else Inr [])
               else Inr []))"


section \<open>The priority queue (module heapq)\<close>

text \<open>
  The OPEN list is a Python list used as a binary heap through \<open>heapq.heappush\<close> and
  \<open>heapq.heappop\<close>; the items are compared with \<open>State.__lt__\<close>. The functions below
  follow \<open>heapq.py\<close>: \<open>_siftdown\<close> moves the item at \<open>pos\<close> towards the root,
  \<open>_siftup\<close> moves the smaller child up until a leaf is reached, puts the item there and
  sifts it down. Both are called with \<open>pos\<close> inside the list.
\<close>

function siftdown_loop :: "State list \<Rightarrow> nat \<Rightarrow> State \<Rightarrow> nat \<Rightarrow> State list" where
  "siftdown_loop heap startpos newitem pos =
     (if pos > startpos then
        (let parentpos = (pos - 1) div 2;
             parent = heap ! parentpos
         in if State_lt newitem parent
            then siftdown_loop (heap[pos := parent]) startpos newitem parentpos
            else heap[pos := newitem])
      else heap[pos := newitem])"
  by pat_completeness auto
termination
  by (relation "measure (\<lambda>(heap, startpos, newitem, pos). pos)") auto

definition siftdown :: "State list \<Rightarrow> nat \<Rightarrow> nat \<Rightarrow> State list" where
  "siftdown heap startpos pos = siftdown_loop heap startpos (heap ! pos) pos"

function siftup_loop :: "State list \<Rightarrow> nat \<Rightarrow> nat \<Rightarrow> nat \<Rightarrow> State list \<times> nat" where
  "siftup_loop heap endpos pos childpos =
     (if childpos < endpos then
        (let rightpos = childpos + 1;
             childpos = (if rightpos < endpos \<and> \<not> State_lt (heap ! childpos) (heap ! rightpos)
                         then rightpos else childpos)
         in siftup_loop (heap[pos := heap ! childpos]) endpos childpos (2 * childpos + 1))
      else (heap, pos))"
  by pat_completeness auto
termination
  by (relation "measure (\<lambda>(heap, endpos, pos, childpos). endpos - childpos)") auto

definition siftup :: "State list \<Rightarrow> nat \<Rightarrow> State list" where
  "siftup heap pos =
     (let endpos = length heap;
          startpos = pos;
          newitem = heap ! pos
      in case siftup_loop heap endpos pos (2 * pos + 1) of
           (heap, pos) \<Rightarrow> siftdown (heap[pos := newitem]) startpos pos)"

definition heappush :: "State list \<Rightarrow> State \<Rightarrow> State list" where
  "heappush heap item = siftdown (heap @ [item]) 0 (length (heap @ [item]) - 1)"

text \<open>\<open>heappop\<close> raises \<open>IndexError\<close> on the empty list: the result \<open>None\<close>.\<close>

definition heappop :: "State list \<Rightarrow> (State \<times> State list) option" where
  "heappop heap =
     (if heap = [] then None
      else (let lastelt = last heap;
                heap = butlast heap
            in if heap \<noteq> []
               then (let returnitem = heap ! 0
                     in Some (returnitem, siftup (heap[0 := lastelt]) 0))
               else Some (lastelt, heap)))"

section \<open>The single-agent search (class AStar)\<close>

record AStar =
  a_map :: gridded_map
  OPEN :: "State list"
  CLOSED :: "int \<rightharpoonup> State"
  a_start :: "State option"
  a_goal :: "State option"

definition AStar_init :: "gridded_map \<Rightarrow> AStar" where
  "AStar_init gridded_map =
     \<lparr> a_map = gridded_map, OPEN = [], CLOSED = Map.empty, a_start = None, a_goal = None \<rparr>"

text \<open>\<open>AStar.compute_cost\<close> sets the cost of a state to its f-value.\<close>

definition AStar_compute_cost :: "State \<Rightarrow> State \<Rightarrow> State" where
  "AStar_compute_cost goal s = set_cost s (get_g s + get_heuristic s goal)"

text \<open>\<open>_recover_path\<close>: the nodes from \<open>node\<close> back along the parent links, reversed.\<close>

fun parent_chain :: "State \<Rightarrow> State list" where
  "parent_chain (State x y g c None) = [State x y g c None]"
| "parent_chain (State x y g c (Some p)) = State x y g c (Some p) # parent_chain p"

definition recover_path :: "State \<Rightarrow> State list" where
  "recover_path node = rev (parent_chain node)"

text \<open>
  The body of the loop over the children of a node. The hash is taken before the cost and
  the parent of the child are set; it depends on the position and the time only.
\<close>

definition expand_child ::
  "int \<Rightarrow> State \<Rightarrow> State \<Rightarrow> State list \<times> (int \<rightharpoonup> State) \<Rightarrow> State
     \<Rightarrow> State list \<times> (int \<rightharpoonup> State)" where
  "expand_child map_width goal node oc child =
     (case oc of (open_list, closed) \<Rightarrow>
        (let hash_value = State_hash map_width child;
             child = set_parent (AStar_compute_cost goal child) node;
             (open_list, closed) =
                (if closed hash_value = None
                 then (heappush open_list child, closed(hash_value \<mapsto> child))
                 else (open_list, closed))
         in case closed hash_value of
              None \<Rightarrow> (open_list, closed)
            | Some old \<Rightarrow>
                if get_g old > get_g child
                then (heappush open_list child, closed(hash_value \<mapsto> child))
                else (open_list, closed)))"

text \<open>
  The main loop. It may run for ever, so it is a partial function: no result is the
  value \<open>None\<close>. The result is the returned pair and the final OPEN and CLOSED.
\<close>

type_synonym search_result = "int \<times> State list option"

partial_function (option) astar_loop ::
  "gridded_map \<Rightarrow> int \<Rightarrow> State \<Rightarrow> constraints \<Rightarrow> State list \<times> (int \<rightharpoonup> State)
     \<Rightarrow> (search_result \<times> State list \<times> (int \<rightharpoonup> State)) option" where
  "astar_loop gm map_width goal cs oc =
     (if length (fst oc) > 0 then
        (case heappop (fst oc) of
           None \<Rightarrow> None
         | Some (node, open_list) \<Rightarrow>
             if is_goal node goal
             then Some ((get_g node, Some (recover_path node)), open_list, snd oc)
             else astar_loop gm map_width goal cs
                    (foldl (expand_child map_width goal node) (open_list, snd oc) (gm node cs)))
      else Some ((- 1, None), fst oc, snd oc))"

declare astar_loop.simps [code]

text \<open>
  \<open>AStar.search\<close>: the start and the goal are stored, the cost of the start is computed,
  OPEN and CLOSED are cleared, and the loop runs from the start alone. The argument
  \<open>constraints\<close> is handed to the map unchanged.
\<close>

definition AStar_search ::
  "int \<Rightarrow> AStar \<Rightarrow> State \<Rightarrow> State \<Rightarrow> constraints \<Rightarrow> (search_result \<times> AStar) option" where
  "AStar_search map_width a start goal cs =
     (let start = AStar_compute_cost goal start;
          a = a\<lparr>a_start := Some start, a_goal := Some goal\<rparr>;
          a = a\<lparr>OPEN := [], CLOSED := Map.empty\<rparr>;
          a = a\<lparr>OPEN := heappush (OPEN a) start\<rparr>;
          a = a\<lparr>CLOSED := (CLOSED a)(State_hash map_width start \<mapsto> start)\<rparr>
      in case astar_loop (a_map a) map_width goal cs (OPEN a, CLOSED a) of
           None \<Rightarrow> None
         | Some (r, open_list, closed) \<Rightarrow> Some (r, a\<lparr>OPEN := open_list, CLOSED := closed\<rparr>))"

subsection \<open>The cost of a node (CBSState.compute_cost)\<close>

text \<open>
  One search per agent with a single \<open>AStar\<close> object; the path is stored and the cost is
  added to the cost of the node. \<open>goals[i]\<close> raises \<open>IndexError\<close> when there are fewer
  goals than starts, \<open>_constraints[i]\<close> raises \<open>KeyError\<close> when the agent has no
  dictionary. A search that does not return leaves the whole computation without result.
\<close>

fun compute_cost_agents ::
  "int \<Rightarrow> nat list \<Rightarrow> AStar \<Rightarrow> CBSState \<Rightarrow> (py_error + CBSState) option" where
  "compute_cost_agents map_width [] astar st = Some (Inr st)"
| "compute_cost_agents map_width (i # rest) astar st =
     (if i < length (c_starts st) then
        (if i < length (c_goals st) then
           (case c_constraints st i of
              None \<Rightarrow> Some (Inl KeyError)
            | Some ci \<Rightarrow>
                (case AStar_search map_width astar (c_starts st ! i) (c_goals st ! i) ci of
                   None \<Rightarrow> None
                 | Some ((cost, path), astar) \<Rightarrow>
                     compute_cost_agents map_width rest astar
                       (st\<lparr>c_paths := (c_paths st)(i \<mapsto> path), c_cost := c_cost st + cost\<rparr>)))
         else Some (Inl IndexError))
      else Some (Inl IndexError))"

definition compute_cost ::
  "int \<Rightarrow> CBSState \<Rightarrow> (py_error + ((nat \<rightharpoonup> State list option) \<times> int) \<times> CBSState) option" where
  "compute_cost map_width st =
     (case compute_cost_agents map_width [0..<c_k st] (AStar_init (c_map st)) st of
        None \<Rightarrow> None
      | Some (Inl e) \<Rightarrow> Some (Inl e)
      | Some (Inr st') \<Rightarrow> Some (Inr ((c_paths st', c_cost st'), st')))"

section \<open>The grid map\<close>

text \<open>
  Modelled from the spec: the class of the map and its method \<open>successors\<close> are not among
  the sources. The specification gives the expansion rule: from a state at time \<open>g\<close> one
  successor for each of the four cardinal moves and for the wait action, each at time
  \<open>g + 1\<close>; a successor is pruned if its cell is outside the bounds of the map, is blocked,
  or is forbidden for the agent at time \<open>g + 1\<close>. The order of the moves is not given; the
  children are new states, with cost 0 and no parent.
\<close>

definition forbidden :: "constraints \<Rightarrow> int \<times> int \<Rightarrow> int \<Rightarrow> bool" where
  "forbidden cs cell t = (case cs cell of None \<Rightarrow> False | Some ts \<Rightarrow> t \<in> ts)"

definition grid_moves :: "(int \<times> int) list" where
  "grid_moves = [(1, 0), (- 1, 0), (0, 1), (0, - 1), (0, 0)]"

definition grid_successors :: "int \<Rightarrow> int \<Rightarrow> (int \<times> int \<Rightarrow> bool) \<Rightarrow> gridded_map" where
  "grid_successors width height isBlocked s cs =
     map (\<lambda>(dx, dy). set_g (State_init (get_x s + dx) (get_y s + dy)) (get_g s + 1))
       (filter (\<lambda>(dx, dy).
            0 \<le> get_x s + dx \<and> get_x s + dx < width \<and>
            0 \<le> get_y s + dy \<and> get_y s + dy < height \<and>
            \<not> isBlocked (get_x s + dx, get_y s + dy) \<and>
            \<not> forbidden cs (get_x s + dx, get_y s + dy) (get_g s + 1))
          grid_moves)"

section \<open>The CBS driver (class CBS)\<close>

text \<open>
  \<open>CBS.search\<close> consists of the statement \<open>return None, None\<close>. The result is either an
  exception or the returned pair.
\<close>

definition CBS_search ::
  "CBSState \<Rightarrow> py_error + ((nat \<rightharpoonup> State list option) option \<times> int option)" where
  "CBS_search start = Inr (None, None)"


section \<open>Auxiliary notions and instances\<close>

text \<open>
  The result of the search for agent \<open>i\<close> of a node, run on a new \<open>AStar\<close> object; no
  result when the agent has no dictionary of constraints or the search does not return.
\<close>

definition agent_search ::
  "int \<Rightarrow> gridded_map \<Rightarrow> State list \<Rightarrow> State list \<Rightarrow> (nat \<rightharpoonup> constraints) \<Rightarrow> nat
     \<Rightarrow> search_result option" where
  "agent_search mw gm starts goals cons i =
     (case cons i of
        None \<Rightarrow> None
      | Some ci \<Rightarrow> map_option fst (AStar_search mw (AStar_init gm) (starts ! i) (goals ! i) ci))"


text \<open>
  A corridor of three cells, \<open>(0,0)\<close>, \<open>(1,0)\<close> and \<open>(2,0)\<close>, without obstacles. Agent 0
  goes from \<open>(0,0)\<close> to \<open>(1,0)\<close>, agent 1 from \<open>(2,0)\<close> to \<open>(0,0)\<close>. In the node
  \<open>boxed_child\<close> agent 0 may be neither at \<open>(0,0)\<close> nor at \<open>(1,0)\<close> at time 1.
\<close>

definition corridor3 :: gridded_map where
  "corridor3 = grid_successors 3 1 (\<lambda>c. False)"

definition boxed_child :: CBSState where
  "boxed_child =
     (CBSState_init corridor3 [State_init 0 0, State_init 2 0] [State_init 1 0, State_init 0 0])
       \<lparr>c_constraints := [0 \<mapsto> [(0, 0) \<mapsto> {1}, (1, 0) \<mapsto> {1}], 1 \<mapsto> Map.empty]\<rparr>"

definition boxed_child_results :: "nat \<Rightarrow> search_result" where
  "boxed_child_results j =
     (if j = 0 then (- 1, None)
      else (2, Some [State 2 0 0 2 None, State 1 0 1 2 (Some (State 2 0 0 2 None)),
                     State 0 0 2 2 (Some (State 1 0 1 2 (Some (State 2 0 0 2 None))))]))"

definition used_astar :: AStar where
  "used_astar = \<lparr> a_map = corridor3, OPEN = [State_init 1 0, State_init 2 0],
     CLOSED = [7 \<mapsto> State_init 1 0], a_start = Some (State_init 1 0), a_goal = Some (State_init 2 0) \<rparr>"


text \<open>
  The constraints of a node as a relation: agent \<open>a\<close> may not be at \<open>cell\<close> at time \<open>t\<close>.
  \<open>add_forbidden\<close> is the dictionary of one agent with one more forbidden pair.
\<close>

definition is_forbidden :: "(nat \<rightharpoonup> constraints) \<Rightarrow> nat \<Rightarrow> int \<times> int \<Rightarrow> int \<Rightarrow> bool" where
  "is_forbidden cons a cell t = (case cons a of None \<Rightarrow> False | Some ca \<Rightarrow> forbidden ca cell t)"

definition add_forbidden :: "constraints \<Rightarrow> int \<times> int \<Rightarrow> int \<Rightarrow> constraints" where
  "add_forbidden ca cell t = ca(cell \<mapsto> insert t (case ca cell of None \<Rightarrow> {} | Some ts \<Rightarrow> ts))"


text \<open>The test of \<open>successors\<close> for an agent: its path holds the conflicting state at the conflict time.\<close>

definition holds_conflict :: "(nat \<rightharpoonup> State list option) \<Rightarrow> State \<Rightarrow> int \<Rightarrow> nat \<Rightarrow> bool" where
  "holds_conflict ps conflict_state conflict_time i =
     (case ps i of
        Some (Some p) \<Rightarrow>
          conflict_time < int (length p) \<and>
          (case py_index p conflict_time of Inl e \<Rightarrow> False | Inr s \<Rightarrow> State_eq s conflict_state)
      | _ \<Rightarrow> False)"


text \<open>
  The root node of the corridor after \<open>compute_cost\<close>: both agents are at \<open>(1,0)\<close> at
  time 1.
\<close>

definition corridor_root :: CBSState where
  "corridor_root =
     (CBSState_init corridor3 [State_init 0 0, State_init 2 0] [State_init 1 0, State_init 0 0])
       \<lparr>c_cost := 3,
        c_paths := [0 \<mapsto> Some [State 0 0 0 1 None, State 1 0 1 1 (Some (State 0 0 0 1 None))],
                    1 \<mapsto> Some [State 2 0 0 2 None, State 1 0 1 2 (Some (State 2 0 0 2 None)),
                     State 0 0 2 2 (Some (State 1 0 1 2 (Some (State 2 0 0 2 None))))]]\<rparr>"


text \<open>
  Two cells, \<open>(0,0)\<close> and \<open>(1,0)\<close>; both agents start at \<open>(0,0)\<close>, agent 0 goes to
  \<open>(1,0)\<close> and agent 1 stays. The node is the first child of the root after
  \<open>compute_cost\<close>: agent 0 is forbidden at \<open>(0,0)\<close> at time 0, and its path still starts
  there, because the search never tests its start state against the constraints.
\<close>

definition shared_start_node :: CBSState where
  "shared_start_node =
     (CBSState_init (grid_successors 2 1 (\<lambda>c. False))
        [State_init 0 0, State_init 0 0] [State_init 1 0, State_init 0 0])
       \<lparr>c_cost := 1,
        c_constraints := [0 \<mapsto> [(0, 0) \<mapsto> {0}], 1 \<mapsto> Map.empty],
        c_paths := [0 \<mapsto> Some [State 0 0 0 1 None, State 1 0 1 1 (Some (State 0 0 0 1 None))],
                    1 \<mapsto> Some [State 0 0 0 0 None]]\<rparr>"


text \<open>
  Notions for conflict detection. \<open>path_at\<close> is the path of an agent (empty when there is
  none), \<open>vertex_conflict\<close> says that two distinct agents are in the same cell at the index
  \<open>t\<close> of their paths, \<open>occupied_twice\<close> that \<open>s\<close> is the state of an agent at index \<open>t\<close>
  and an agent before it is in the same cell. \<open>timed_paths\<close>: every agent has a path, and
  the state at index \<open>t\<close> of a path has the time \<open>t\<close>, as in the paths the search returns
  from a start at time 0.
\<close>

definition path_at :: "(nat \<rightharpoonup> State list option) \<Rightarrow> nat \<Rightarrow> State list" where
  "path_at ps i = (case ps i of Some (Some p) \<Rightarrow> p | _ \<Rightarrow> [])"

definition same_cell :: "State \<Rightarrow> State \<Rightarrow> bool" where
  "same_cell a b = (get_x a = get_x b \<and> get_y a = get_y b)"

definition vertex_conflict :: "(nat \<rightharpoonup> State list option) \<Rightarrow> nat \<Rightarrow> nat \<Rightarrow> bool" where
  "vertex_conflict ps k t =
     list_ex (\<lambda>j. list_ex (\<lambda>i.
         t < length (path_at ps i) \<and> t < length (path_at ps j) \<and>
         same_cell (path_at ps i ! t) (path_at ps j ! t)) [0..<j]) [0..<k]"

definition occupied_twice :: "(nat \<rightharpoonup> State list option) \<Rightarrow> nat \<Rightarrow> nat \<Rightarrow> State \<Rightarrow> bool" where
  "occupied_twice ps k t s =
     list_ex (\<lambda>j. list_ex (\<lambda>i.
         t < length (path_at ps i) \<and> t < length (path_at ps j) \<and>
         path_at ps j ! t = s \<and> same_cell (path_at ps i ! t) s) [0..<j]) [0..<k]"

definition timed_paths :: "(nat \<rightharpoonup> State list option) \<Rightarrow> nat \<Rightarrow> bool" where
  "timed_paths ps k =
     list_all (\<lambda>i. case ps i of
                     Some (Some p) \<Rightarrow> list_all (\<lambda>t. get_g (p ! t) = int t) [0..<length p]
                   | _ \<Rightarrow> False) [0..<k]"


text \<open>
  The test of the code: agent \<open>j\<close> is at index \<open>t\<close> in a state equal (by \<open>__eq__\<close>) to
  the state of an agent before it.
\<close>

definition dup_at :: "(nat \<rightharpoonup> State list option) \<Rightarrow> nat \<Rightarrow> nat \<Rightarrow> bool" where
  "dup_at ps t j =
     (t < length (path_at ps j) \<and>
      (\<exists>i<j. t < length (path_at ps i) \<and> State_eq (path_at ps i ! t) (path_at ps j ! t)))"

definition dup_from :: "(nat \<rightharpoonup> State list option) \<Rightarrow> nat \<Rightarrow> nat \<Rightarrow> nat \<Rightarrow> bool" where
  "dup_from ps k t m = (\<exists>j. m \<le> j \<and> j < k \<and> dup_at ps t j)"

definition reports :: "(nat \<rightharpoonup> State list option) \<Rightarrow> nat \<Rightarrow> nat \<Rightarrow> nat \<Rightarrow> conflict option \<Rightarrow> bool" where
  "reports ps k t m c =
     (\<exists>j. m \<le> j \<and> j < k \<and> dup_at ps t j \<and> c = Some (path_at ps j ! t, get_g (path_at ps j ! t)))"

definition conflict_from :: "(nat \<rightharpoonup> State list option) \<Rightarrow> nat \<Rightarrow> nat \<Rightarrow> bool" where
  "conflict_from ps k t = (\<exists>u. t \<le> u \<and> dup_from ps k u 0)"

definition reports_last :: "(nat \<rightharpoonup> State list option) \<Rightarrow> nat \<Rightarrow> nat \<Rightarrow> conflict option \<Rightarrow> bool" where
  "reports_last ps k t c =
     (\<exists>T. t \<le> T \<and> reports ps k T 0 c \<and> \<not> conflict_from ps k (Suc T))"


text \<open>
  On an open grid of 4 by 3 cells agent 0 goes from \<open>(0,1)\<close> to \<open>(3,1)\<close> and agent 1 from
  \<open>(1,0)\<close> to \<open>(2,2)\<close>, each along a shortest path; they meet at \<open>(1,1)\<close> at time 1 and at
  \<open>(2,1)\<close> at time 2.
\<close>

definition crossing_node :: CBSState where
  "crossing_node =
     (CBSState_init (grid_successors 4 3 (\<lambda>c. False))
        [State_init 0 1, State_init 1 0] [State_init 3 1, State_init 2 2])
       \<lparr>c_cost := 6,
        c_paths := [0 \<mapsto> Some [State 0 1 0 3 None, State 1 1 1 3 None, State 2 1 2 3 None,
                              State 3 1 3 3 None],
                    1 \<mapsto> Some [State 1 0 0 3 None, State 1 1 1 3 None, State 2 1 2 3 None,
                              State 2 2 3 3 None]]\<rparr>"


text \<open>The child position that \<open>_siftup\<close> chooses: the right child unless the left one is smaller.\<close>

definition smaller_child :: "State list \<Rightarrow> nat \<Rightarrow> nat \<Rightarrow> nat" where
  "smaller_child heap endpos childpos =
     (if childpos + 1 < endpos \<and> \<not> State_lt (heap ! childpos) (heap ! (childpos + 1))
      then childpos + 1 else childpos)"


text \<open>
  The loop of the search, one iteration at a time. \<open>astar_exit\<close> is the result with which
  the loop leaves at a configuration of OPEN and CLOSED: the failure result when OPEN is
  empty, the cost and the path of the popped node when it is at the goal. \<open>astar_next\<close> is
  the configuration after an iteration that expands the popped node, \<open>astar_iter n\<close>
  the configuration after \<open>n\<close> such iterations, and \<open>astar_start\<close> the configuration with
  which \<open>AStar.search\<close> enters the loop.
\<close>

type_synonym open_closed = "State list \<times> (int \<rightharpoonup> State)"

definition astar_exit ::
  "State \<Rightarrow> open_closed \<Rightarrow> (search_result \<times> State list \<times> (int \<rightharpoonup> State)) option" where
  "astar_exit goal oc =
     (if length (fst oc) > 0 then
        (case heappop (fst oc) of
           None \<Rightarrow> None
         | Some (node, open_list) \<Rightarrow>
             if is_goal node goal
             then Some ((get_g node, Some (recover_path node)), open_list, snd oc)
             else None)
      else Some ((- 1, None), fst oc, snd oc))"

definition astar_next ::
  "gridded_map \<Rightarrow> int \<Rightarrow> State \<Rightarrow> constraints \<Rightarrow> open_closed \<Rightarrow> open_closed option" where
  "astar_next gm map_width goal cs oc =
     (if length (fst oc) > 0 then
        (case heappop (fst oc) of
           None \<Rightarrow> None
         | Some (node, open_list) \<Rightarrow>
             if is_goal node goal then None
             else Some (foldl (expand_child map_width goal node) (open_list, snd oc) (gm node cs)))
      else None)"

primrec astar_iter ::
  "gridded_map \<Rightarrow> int \<Rightarrow> State \<Rightarrow> constraints \<Rightarrow> nat \<Rightarrow> open_closed \<Rightarrow> open_closed option" where
  "astar_iter gm map_width goal cs 0 oc = Some oc"
| "astar_iter gm map_width goal cs (Suc n) oc =
     (case astar_next gm map_width goal cs oc of
        None \<Rightarrow> None
      | Some oc' \<Rightarrow> astar_iter gm map_width goal cs n oc')"

definition astar_start :: "int \<Rightarrow> State \<Rightarrow> State \<Rightarrow> open_closed" where
  "astar_start map_width goal start =
     (heappush [] (AStar_compute_cost goal start),
      [State_hash map_width (AStar_compute_cost goal start) \<mapsto> AStar_compute_cost goal start])"


text \<open>
  \<open>nodes_of\<close>: the states in OPEN and CLOSED. \<open>make_node\<close>: a child as it is pushed, with
  its cost and its parent set. The keys of CLOSED are values of the built-in hash, which
  lie in \<open>hash_range\<close>; \<open>free_keys\<close> counts the keys not in CLOSED, \<open>time_sum\<close> adds the
  times of the states in CLOSED above a lower bound \<open>L\<close>, and \<open>search_order\<close> compares
  configurations by these two numbers and the length of OPEN.
\<close>

definition nodes_of :: "open_closed \<Rightarrow> State set" where
  "nodes_of oc = set (fst oc) \<union> ran (snd oc)"

definition make_node :: "State \<Rightarrow> State \<Rightarrow> State \<Rightarrow> State" where
  "make_node goal node child = set_parent (AStar_compute_cost goal child) node"

definition hash_range :: "int set" where
  "hash_range = {- (2 ^ 63) ..< 2 ^ 63}"

definition free_keys :: "open_closed \<Rightarrow> nat" where
  "free_keys oc = card (hash_range - dom (snd oc))"

definition time_sum :: "int \<Rightarrow> open_closed \<Rightarrow> nat" where
  "time_sum L oc = (\<Sum>k \<in> dom (snd oc). nat (get_g (the (snd oc k)) - L))"

definition search_order :: "int \<Rightarrow> (open_closed \<times> open_closed) set" where
  "search_order L =
     inv_image (less_than <*lex*> less_than <*lex*> less_than)
       (\<lambda>oc. (free_keys oc, time_sum L oc, length (fst oc)))"


text \<open>
  The invariant of the loop used for termination (the keys of CLOSED are hash values and
  no state is earlier than \<open>L\<close>), and the progress one expanded child makes.
\<close>

definition search_inv :: "int \<Rightarrow> open_closed \<Rightarrow> bool" where
  "search_inv L oc = (dom (snd oc) \<subseteq> hash_range \<and> (\<forall>x \<in> nodes_of oc. L \<le> get_g x))"

definition progress :: "int \<Rightarrow> open_closed \<Rightarrow> open_closed \<Rightarrow> bool" where
  "progress L oc oc' =
     (free_keys oc' < free_keys oc \<or>
      (free_keys oc' = free_keys oc \<and> time_sum L oc' < time_sum L oc))"


text \<open>
  A path as \<open>_recover_path\<close> builds it: the first state has no parent, and every other
  state has the state before it as its parent.
\<close>

fun linked_from :: "State \<Rightarrow> State list \<Rightarrow> bool" where
  "linked_from p [] = True"
| "linked_from p (s # rest) = (get_parent s = Some p \<and> linked_from s rest)"

fun linked_path :: "State list \<Rightarrow> bool" where
  "linked_path [] = False"
| "linked_path (s # rest) = (get_parent s = None \<and> linked_from s rest)"


text \<open>
  The two ways in which the loop ends. \<open>queue_exhausted\<close>: after some iterations, each of
  which popped a state that is not at the goal, OPEN is empty. \<open>goal_popped\<close>: after some
  such iterations the state popped next is \<open>node\<close> and it is at the goal.
\<close>

definition queue_exhausted :: "gridded_map \<Rightarrow> int \<Rightarrow> State \<Rightarrow> constraints \<Rightarrow> State \<Rightarrow> bool" where
  "queue_exhausted gm map_width goal cs start =
     (\<exists>n oc. astar_iter gm map_width goal cs n (astar_start map_width goal start) = Some oc \<and>
             fst oc = [])"

definition goal_popped ::
  "gridded_map \<Rightarrow> int \<Rightarrow> State \<Rightarrow> constraints \<Rightarrow> State \<Rightarrow> State \<Rightarrow> bool" where
  "goal_popped gm map_width goal cs start node =
     (\<exists>n oc open_list.
         astar_iter gm map_width goal cs n (astar_start map_width goal start) = Some oc \<and>
         heappop (fst oc) = Some (node, open_list) \<and> is_goal node goal)"


text \<open>
  In the corridor, from \<open>(0,0)\<close> to \<open>(1,0)\<close> with \<open>(1,0)\<close> forbidden at time 1: the agent
  waits one step.
\<close>

definition waiting_constraints :: constraints where
  "waiting_constraints = [(1, 0) \<mapsto> {1}]"

definition waiting_path :: "State list" where
  "waiting_path =
     [State 0 0 0 1 None, State 0 0 1 2 (Some (State 0 0 0 1 None)),
      State 1 0 2 2 (Some (State 0 0 1 2 (Some (State 0 0 0 1 None))))]"


text \<open>The heap order of the OPEN list: no item has a smaller cost than its parent position.\<close>

definition heap_parent :: "nat \<Rightarrow> nat" where
  "heap_parent i = (i - 1) div 2"

definition heap_ok :: "State list \<Rightarrow> bool" where
  "heap_ok heap =
     list_all (\<lambda>i. get_cost (heap ! heap_parent i) \<le> get_cost (heap ! i)) [1..<length heap]"

section \<open>Theorems\<close>

lemma State_hash_key: "State_hash w s = py_hash_pair (fst (State_key w s)) (snd (State_key w s))"
  by (simp add: State_hash_def State_key_def)

lemma State_key_inj:
  assumes "in_bounds w h a" "in_bounds w h b" "State_key w a = State_key w b"
  shows "State_eq a b"
proof -
  from assms have xa: "0 \<le> get_x a" "get_x a < w" and xb: "0 \<le> get_x b" "get_x b < w"
    and e: "get_y a * w + get_x a = get_y b * w + get_x b" and g: "get_g a = get_g b"
    by (simp_all add: in_bounds_def State_key_def)
  have "(get_y a * w + get_x a) div w = (get_y b * w + get_x b) div w"
    using e by simp
  then have y: "get_y a = get_y b"
    using xa xb by simp
  with e have "get_x a = get_x b" by simp
  with y g show ?thesis by (simp add: State_eq_def)
qed

lemma py_hash_int_period: "0 \<le> n \<Longrightarrow> py_hash_int (n + PyHASH_MODULUS) = py_hash_int n"
  by (simp add: py_hash_int_def PyHASH_MODULUS_def)

subsection \<open>The CBS driver\<close>

text \<open>
  C1 (the code departs from the claim). The claim asks that the search of the CBS driver
  returns the joint plan and the total cost of the first conflict-free node. The driver in
  the source returns the pair \<open>(None, None)\<close> for every start node, solvable or not.
\<close>

theorem CBS_search_returns_nothing: "CBS_search start = Inr (None, None)"
  by (simp add: CBS_search_def)

text \<open>
  C7, as stated, fails: two start positions, the first one outside a 3 by 1 map, and a
  single goal are accepted by the constructor, and the search returns its pair without
  raising anything.
\<close>

theorem malformed_input_not_rejected:
  "c_k (CBSState_init (\<lambda>s cs. []) [State_init 7 7, State_init 0 0] [State_init 2 0]) = 2 \<and>
   length (c_goals (CBSState_init (\<lambda>s cs. []) [State_init 7 7, State_init 0 0] [State_init 2 0])) = 1 \<and>
   \<not> in_bounds 3 1 (State_init 7 7) \<and>
   CBS_search (CBSState_init (\<lambda>s cs. []) [State_init 7 7, State_init 0 0] [State_init 2 0])
     = Inr (None, None)"
  by (simp add: CBSState_init_def CBS_search_def in_bounds_def State_init_def)

text \<open>
  C7, amended. No input is validated: for every map, every list of starts and every list
  of goals the constructor builds a node whose number of agents is the length of the
  starts, with the starts and goals stored as given, one empty dictionary of constraints
  for each agent, no paths and cost 0; the search of the driver then returns
  \<open>(None, None)\<close> and never an exception.
\<close>

theorem CBSState_init_accepts_everything:
  "c_k (CBSState_init gm starts goals) = length starts \<and>
   c_starts (CBSState_init gm starts goals) = starts \<and>
   c_goals (CBSState_init gm starts goals) = goals \<and>
   c_cost (CBSState_init gm starts goals) = 0 \<and>
   c_paths (CBSState_init gm starts goals) = Map.empty \<and>
   dom (c_constraints (CBSState_init gm starts goals)) = {..< length starts} \<and>
   ran (c_constraints (CBSState_init gm starts goals)) \<subseteq> {Map.empty} \<and>
   (\<exists>r. CBS_search (CBSState_init gm starts goals) = Inr r)"
  by (auto simp: CBSState_init_def CBS_search_def dom_def ran_def split: if_splits)

subsection \<open>The hash of a state\<close>

text \<open>
  C8 (the code departs from the claim). On a 1 by 1 map the states at cell \<open>(0, 0)\<close> with
  time 0 and with time \<open>2^61 - 1\<close> are both in bounds and differ in their time, and
  \<open>State.__hash__\<close> gives both the same key.
\<close>

theorem State_hash_collision:
  "in_bounds 1 1 (State 0 0 0 0 None) \<and>
   in_bounds 1 1 (State 0 0 (2 ^ 61 - 1) 0 None) \<and>
   \<not> State_eq (State 0 0 0 0 None) (State 0 0 (2 ^ 61 - 1) 0 None) \<and>
   State_hash 1 (State 0 0 0 0 None) = State_hash 1 (State 0 0 (2 ^ 61 - 1) 0 None)"
  by (simp add: in_bounds_def State_eq_def State_hash_def py_hash_pair_def
      tuplehash_lane_def py_hash_int_def PyHASH_MODULUS_def)



subsection \<open>The search of one agent and the objects left from earlier searches\<close>

lemma AStar_search_fresh:
  "map_option fst (AStar_search mw a start goal cs) =
   map_option fst (AStar_search mw (AStar_init (a_map a)) start goal cs)"
  by (simp add: AStar_search_def AStar_init_def Let_def split: option.splits)

lemma AStar_search_map:
  "AStar_search mw a start goal cs = Some (r, a') \<Longrightarrow> a_map a' = a_map a"
  by (auto simp: AStar_search_def Let_def split: option.splits)


lemma corridor3_search:
  "map_option fst (AStar_search 3 (AStar_init corridor3) (State_init 2 0) (State_init 0 0) Map.empty)
     = Some (boxed_child_results 1)"
  by code_simp


text \<open>
  C9. Two searches with the same start, goal and constraints on \<open>AStar\<close> objects for the
  same map return the same cost and path (or both do not return), whatever the objects
  hold in OPEN, CLOSED, start and goal from earlier searches: the search clears OPEN and
  CLOSED and overwrites start and goal before it uses them. In particular a used object
  behaves as a new one.
\<close>

theorem AStar_search_independent_of_leftovers:
  assumes "a_map a1 = a_map a2"
  shows "map_option fst (AStar_search mw a1 start goal cs) =
         map_option fst (AStar_search mw a2 start goal cs)"
  using assms AStar_search_fresh [of mw a1 start goal cs] AStar_search_fresh [of mw a2 start goal cs]
  by simp

theorem AStar_search_independent_of_leftovers_witness:
  "map_option fst (AStar_search 3 used_astar (State_init 2 0) (State_init 0 0) Map.empty) =
   map_option fst (AStar_search 3 (AStar_init corridor3) (State_init 2 0) (State_init 0 0) Map.empty) \<and>
   map_option fst (AStar_search 3 used_astar (State_init 2 0) (State_init 0 0) Map.empty) =
   Some (boxed_child_results 1)"
proof -
  have "a_map used_astar = a_map (AStar_init corridor3)"
    by (simp add: used_astar_def AStar_init_def)
  from AStar_search_independent_of_leftovers [OF this] corridor3_search show ?thesis
    by simp
qed


subsection \<open>The cost of a node\<close>

lemma compute_cost_agents_result:
  assumes "a_map astar = c_map st"
    and "\<forall>j \<in> set js. j < length (c_starts st) \<and> j < length (c_goals st) \<and>
           agent_search mw (c_map st) (c_starts st) (c_goals st) (c_constraints st) j = Some (res j)"
    and "distinct js"
  shows "\<exists>st'. compute_cost_agents mw js astar st = Some (Inr st') \<and>
           c_cost st' = c_cost st + sum_list (map (\<lambda>j. fst (res j)) js) \<and>
           (\<forall>j \<in> set js. c_paths st' j = Some (snd (res j))) \<and>
           (\<forall>j. j \<notin> set js \<longrightarrow> c_paths st' j = c_paths st j) \<and>
           c_constraints st' = c_constraints st \<and> c_starts st' = c_starts st \<and>
           c_goals st' = c_goals st \<and> c_map st' = c_map st \<and> c_k st' = c_k st"
  using assms
proof (induction js arbitrary: astar st)
  case Nil
  then show ?case by simp
next
  case (Cons i rest)
  from Cons.prems(2) obtain ci where ci: "c_constraints st i = Some ci"
    and i: "i < length (c_starts st)" "i < length (c_goals st)"
    and r: "map_option fst (AStar_search mw (AStar_init (c_map st)) (c_starts st ! i) (c_goals st ! i) ci)
              = Some (res i)"
    by (auto simp: agent_search_def split: option.splits)
  from r AStar_search_fresh [of mw astar "c_starts st ! i" "c_goals st ! i" ci] Cons.prems(1)
  obtain astar' where s: "AStar_search mw astar (c_starts st ! i) (c_goals st ! i) ci = Some (res i, astar')"
    by (cases "AStar_search mw astar (c_starts st ! i) (c_goals st ! i) ci") auto
  define st1 where "st1 = st\<lparr>c_paths := (c_paths st)(i \<mapsto> snd (res i)), c_cost := c_cost st + fst (res i)\<rparr>"
  have m: "a_map astar' = c_map st1"
    using AStar_search_map [OF s] Cons.prems(1) by (simp add: st1_def)
  have h: "\<forall>j \<in> set rest. j < length (c_starts st1) \<and> j < length (c_goals st1) \<and>
           agent_search mw (c_map st1) (c_starts st1) (c_goals st1) (c_constraints st1) j = Some (res j)"
    using Cons.prems(2) by (simp add: st1_def)
  from Cons.prems(3) have d: "distinct rest" "i \<notin> set rest" by simp_all
  from Cons.IH [OF m h d(1)] obtain st' where
    st': "compute_cost_agents mw rest astar' st1 = Some (Inr st')"
      "c_cost st' = c_cost st1 + sum_list (map (\<lambda>j. fst (res j)) rest)"
      "\<forall>j \<in> set rest. c_paths st' j = Some (snd (res j))"
      "\<forall>j. j \<notin> set rest \<longrightarrow> c_paths st' j = c_paths st1 j"
      "c_constraints st' = c_constraints st1" "c_starts st' = c_starts st1"
      "c_goals st' = c_goals st1" "c_map st' = c_map st1" "c_k st' = c_k st1"
    by blast
  have run: "compute_cost_agents mw (i # rest) astar st = Some (Inr st')"
    using i ci s st'(1) by (cases "res i") (simp add: st1_def)
  have "c_paths st' i = Some (snd (res i))"
    using st'(4) d(2) by (simp add: st1_def)
  with run st' show ?case
    by (auto simp: st1_def)
qed

lemma boxed_child_agent0:
  "agent_search 3 (c_map boxed_child) (c_starts boxed_child) (c_goals boxed_child)
     (c_constraints boxed_child) 0 = Some (boxed_child_results 0)"
  by code_simp

lemma boxed_child_agent1:
  "agent_search 3 (c_map boxed_child) (c_starts boxed_child) (c_goals boxed_child)
     (c_constraints boxed_child) 1 = Some (boxed_child_results 1)"
  by code_simp


text \<open>
  C10. Let every agent of a node have a start, a goal and a search that returns, and let
  the search of agent \<open>i\<close> return the failure result \<open>(-1, None)\<close>. Then \<open>compute_cost\<close>
  returns without an exception, the path stored for agent \<open>i\<close> is \<open>None\<close>, every agent has
  the path of its search, and the cost of the node is its old cost plus the costs of the
  other agents plus \<open>-1\<close>.
\<close>

theorem compute_cost_folds_failure:
  assumes "c_k st \<le> length (c_starts st)" and "c_k st \<le> length (c_goals st)"
    and "\<forall>j < c_k st.
           agent_search mw (c_map st) (c_starts st) (c_goals st) (c_constraints st) j = Some (res j)"
    and "i < c_k st" and "res i = (- 1, None)"
  shows "\<exists>st'. compute_cost mw st = Some (Inr ((c_paths st', c_cost st'), st')) \<and>
           c_paths st' i = Some None \<and>
           (\<forall>j < c_k st. c_paths st' j = Some (snd (res j))) \<and>
           c_cost st' = c_cost st + (\<Sum>j \<in> {..< c_k st} - {i}. fst (res j)) + (- 1)"
proof -
  have "\<forall>j \<in> set [0..<c_k st]. j < length (c_starts st) \<and> j < length (c_goals st) \<and>
           agent_search mw (c_map st) (c_starts st) (c_goals st) (c_constraints st) j = Some (res j)"
    using assms(1-3) by auto
  from compute_cost_agents_result [OF _ this, of "AStar_init (c_map st)"]
  obtain st' where st': "compute_cost_agents mw [0..<c_k st] (AStar_init (c_map st)) st = Some (Inr st')"
      "c_cost st' = c_cost st + sum_list (map (\<lambda>j. fst (res j)) [0..<c_k st])"
      "\<forall>j \<in> set [0..<c_k st]. c_paths st' j = Some (snd (res j))"
    by (auto simp: AStar_init_def)
  have "sum_list (map (\<lambda>j. fst (res j)) [0..<c_k st]) = (\<Sum>j \<in> {..< c_k st}. fst (res j))"
    by (simp add: interv_sum_list_conv_sum_set_nat atLeast0LessThan)
  also have "\<dots> = (\<Sum>j \<in> {..< c_k st} - {i}. fst (res j)) + fst (res i)"
    using assms(4) by (simp add: sum.remove [of _ i] add.commute)
  finally have "c_cost st' = c_cost st + (\<Sum>j \<in> {..< c_k st} - {i}. fst (res j)) + (- 1)"
    using st'(2) assms(5) by simp
  moreover have "c_paths st' i = Some None"
    using st'(3) assms(4,5) by simp
  ultimately show ?thesis
    using st' by (auto simp: compute_cost_def)
qed


theorem compute_cost_folds_failure_witness:
  "\<exists>st'. compute_cost 3 boxed_child = Some (Inr ((c_paths st', c_cost st'), st')) \<and>
         c_paths st' 0 = Some None \<and> c_paths st' 1 = Some (snd (boxed_child_results 1)) \<and>
         c_cost st' = 1"
proof -
  have k: "c_k boxed_child = 2" "length (c_starts boxed_child) = 2" "length (c_goals boxed_child) = 2"
    "c_cost boxed_child = 0"
    by (simp_all add: boxed_child_def CBSState_init_def)
  have all: "\<forall>j < c_k boxed_child.
      agent_search 3 (c_map boxed_child) (c_starts boxed_child) (c_goals boxed_child)
        (c_constraints boxed_child) j = Some (boxed_child_results j)"
    using boxed_child_agent0 boxed_child_agent1 by (simp add: k less_2_cases_iff)
  have s: "(\<Sum>j \<in> {..<2::nat} - {0}. fst (boxed_child_results j)) = 2"
  proof -
    have "{..<2::nat} - {0} = {1}" by auto
    then show ?thesis by (simp add: boxed_child_results_def)
  qed
  from compute_cost_folds_failure [of boxed_child 3 boxed_child_results 0] all
  obtain st' where "compute_cost 3 boxed_child = Some (Inr ((c_paths st', c_cost st'), st'))"
    "c_paths st' 0 = Some None" "\<forall>j < c_k boxed_child. c_paths st' j = Some (snd (boxed_child_results j))"
    "c_cost st' = c_cost boxed_child + (\<Sum>j \<in> {..< c_k boxed_child} - {0}. fst (boxed_child_results j)) + (- 1)"
    by (auto simp: k boxed_child_results_def)
  then show ?thesis
    using s by (auto simp: k)
qed

subsection \<open>Branching\<close>

lemma set_constraint_result:
  "c_constraints st a = Some ca \<Longrightarrow>
   set_constraint st s t a =
     Inr (st\<lparr>c_constraints := (c_constraints st)(a \<mapsto> add_forbidden ca (get_x s, get_y s) t)\<rparr>)"
  by (auto simp: set_constraint_def add_forbidden_def Let_def split: option.splits)

lemma make_child_result:
  "c_constraints st a = Some ca \<Longrightarrow>
   \<exists>c. make_child st s t a = Inr c \<and>
       c_constraints c = (c_constraints st)(a \<mapsto> add_forbidden ca (get_x s, get_y s) t) \<and>
       c_map c = c_map st \<and> c_starts c = c_starts st \<and> c_goals c = c_goals st \<and>
       c_k c = length (c_starts st) \<and> c_cost c = 0 \<and> c_paths c = Map.empty"
  by (simp add: make_child_def set_constraint_result CBSState_init_def)

lemma is_forbidden_add:
  "cons a = Some ca \<Longrightarrow>
   is_forbidden (cons(a \<mapsto> add_forbidden ca cell t)) b c u =
     (is_forbidden cons b c u \<or> (b = a \<and> c = cell \<and> u = t))"
  by (auto simp: is_forbidden_def forbidden_def add_forbidden_def split: option.splits)

lemma conflicting_agents_filter:
  "conflicting_agents ps s t rest acc = Inr agents \<Longrightarrow>
   agents = acc @ filter (holds_conflict ps s t) rest"
proof (induction rest arbitrary: acc)
  case Nil
  then show ?case by simp
next
  case (Cons i rest)
  from Cons.prems obtain p where p: "ps i = Some (Some p)"
    by (auto split: option.splits)
  show ?case
  proof (cases "holds_conflict ps s t i")
    case True
    with p Cons.prems have "conflicting_agents ps s t rest (acc @ [i]) = Inr agents"
      by (auto simp: holds_conflict_def split: sum.splits if_splits)
    from Cons.IH [OF this] True show ?thesis by simp
  next
    case False
    with p Cons.prems have "conflicting_agents ps s t rest acc = Inr agents"
      by (auto simp: holds_conflict_def split: sum.splits if_splits)
    from Cons.IH [OF this] False show ?thesis by simp
  qed
qed

lemma filter_upt_first_two:
  assumes "agents = filter P [0..<k]" and "2 \<le> length agents"
  shows "agents ! 0 < agents ! 1 \<and> agents ! 1 < k \<and> P (agents ! 0) \<and> P (agents ! 1)"
proof -
  have "sorted_wrt (<) agents"
    unfolding assms(1) by (rule sorted_wrt_filter) simp
  with assms(2) have "agents ! 0 < agents ! 1"
    by (simp add: sorted_wrt_iff_nth_less)
  moreover have "0 < length agents" "1 < length agents"
    using assms(2) by auto
  then have "agents ! 1 \<in> set agents" "agents ! 0 \<in> set agents"
    using nth_mem by blast+
  ultimately show ?thesis
    unfolding assms(1) by auto
qed

lemma corridor_root_is_solution:
  "is_solution corridor_root = Inr (False, Some (State 1 0 1 2 (Some (State 2 0 0 2 None)), 1))"
  by code_simp

lemma corridor_root_agents:
  "conflicting_agents (c_paths corridor_root) (State 1 0 1 2 (Some (State 2 0 0 2 None))) 1
     [0..<c_k corridor_root] [] = Inr [0, 1]"
  by code_simp

lemma shared_start_is_solution:
  "is_solution shared_start_node = Inr (False, Some (State 0 0 0 0 None, 0))"
  by code_simp

lemma shared_start_agents:
  "conflicting_agents (c_paths shared_start_node) (State 0 0 0 0 None) 0
     [0..<c_k shared_start_node] [] = Inr [0, 1]"
  by code_simp


lemma shared_start_node_computed:
  "map_option (map_sum id (\<lambda>((ps, c), st). (ps 0, ps 1, c)))
     (compute_cost 2 (shared_start_node\<lparr>c_cost := 0, c_paths := Map.empty\<rparr>)) =
   Some (Inr (c_paths shared_start_node 0, c_paths shared_start_node 1, c_cost shared_start_node))"
  by code_simp


text \<open>
  C6, as stated, fails where the new constraint is already there. The node
  \<open>shared_start_node\<close> is not a solution, agents 0 and 1 are in conflict at \<open>(0,0)\<close> at
  time 0, and \<open>successors\<close> returns two children; the constraints of the first child are
  those of the node, with no additional forbidden pair.
\<close>

theorem child_without_new_constraint:
  "is_solution shared_start_node = Inr (False, Some (State 0 0 0 0 None, 0)) \<and>
   conflicting_agents (c_paths shared_start_node) (State 0 0 0 0 None) 0
     [0..<c_k shared_start_node] [] = Inr [0, 1] \<and>
   (\<exists>c1 c2. successors shared_start_node = Inr [c1, c2] \<and>
      c_constraints c1 = c_constraints shared_start_node)"
proof -
  have ca: "c_constraints shared_start_node 0 = Some [(0, 0) \<mapsto> {0}]"
    and cb: "c_constraints shared_start_node 1 = Some Map.empty"
    by (simp_all add: shared_start_node_def)
  from make_child_result [OF ca, of "State 0 0 0 0 None" 0] obtain c1 where
    c1: "make_child shared_start_node (State 0 0 0 0 None) 0 0 = Inr c1"
      "c_constraints c1 =
         (c_constraints shared_start_node)(0 \<mapsto> add_forbidden [(0, 0) \<mapsto> {0}] (0, 0) 0)"
    by auto
  from make_child_result [OF cb, of "State 0 0 0 0 None" 0] obtain c2 where
    c2: "make_child shared_start_node (State 0 0 0 0 None) 0 1 = Inr c2"
    by auto
  have "add_forbidden [(0, 0) \<mapsto> {0}] (0, 0) 0 = [(0, 0) \<mapsto> {0::int}]"
    by (simp add: add_forbidden_def)
  with c1(2) ca have "c_constraints c1 = c_constraints shared_start_node"
    by (simp add: fun_upd_idem)
  moreover have "successors shared_start_node = Inr [c1, c2]"
    using shared_start_is_solution shared_start_agents c1(1) c2
    by (simp add: successors_def)
  ultimately show ?thesis
    using shared_start_is_solution shared_start_agents by blast
qed


text \<open>
  C6, amended. Let a node be no solution, with conflict \<open>(s, t)\<close>, let the list of agents
  that \<open>successors\<close> finds at \<open>s\<close> at time \<open>t\<close> have at least two members, and let every
  agent have a dictionary of constraints. Then \<open>successors\<close> returns exactly two children.
  The first two agents of the list are distinct agents of the node. The constraints of
  child 1 are those of the node with the time \<open>t\<close> put into the set of the cell of \<open>s\<close> for
  the first agent, those of child 2 the same for the second agent. So a pair is forbidden
  in a child exactly when it is forbidden in the node or it is the new pair for the
  chosen agent: nothing is removed, and at most one pair is added (none when the pair was
  forbidden already).
\<close>

theorem successors_two_children:
  assumes "is_solution st = Inr (False, Some (s, t))"
    and "conflicting_agents (c_paths st) s t [0..<c_k st] [] = Inr agents"
    and "2 \<le> length agents"
    and "\<forall>i < c_k st. c_constraints st i \<noteq> None"
  shows "\<exists>c1 c2 ca cb.
           successors st = Inr [c1, c2] \<and>
           agents ! 0 < agents ! 1 \<and> agents ! 1 < c_k st \<and>
           holds_conflict (c_paths st) s t (agents ! 0) \<and>
           holds_conflict (c_paths st) s t (agents ! 1) \<and>
           c_constraints st (agents ! 0) = Some ca \<and>
           c_constraints st (agents ! 1) = Some cb \<and>
           c_constraints c1 =
             (c_constraints st)(agents ! 0 \<mapsto> add_forbidden ca (get_x s, get_y s) t) \<and>
           c_constraints c2 =
             (c_constraints st)(agents ! 1 \<mapsto> add_forbidden cb (get_x s, get_y s) t) \<and>
           (\<forall>a c u. is_forbidden (c_constraints c1) a c u =
              (is_forbidden (c_constraints st) a c u \<or>
               (a = agents ! 0 \<and> c = (get_x s, get_y s) \<and> u = t))) \<and>
           (\<forall>a c u. is_forbidden (c_constraints c2) a c u =
              (is_forbidden (c_constraints st) a c u \<or>
               (a = agents ! 1 \<and> c = (get_x s, get_y s) \<and> u = t)))"
proof -
  from conflicting_agents_filter [OF assms(2)]
  have "agents = filter (holds_conflict (c_paths st) s t) [0..<c_k st]" by simp
  from filter_upt_first_two [OF this assms(3)]
  have ord: "agents ! 0 < agents ! 1" "agents ! 1 < c_k st"
    and hc: "holds_conflict (c_paths st) s t (agents ! 0)" "holds_conflict (c_paths st) s t (agents ! 1)"
    by simp_all
  with assms(4) obtain ca cb where
    ca: "c_constraints st (agents ! 0) = Some ca" and cb: "c_constraints st (agents ! 1) = Some cb"
    by (metis less_trans not_None_eq)
  from make_child_result [OF ca, of s t] obtain c1 where
    c1: "make_child st s t (agents ! 0) = Inr c1"
      "c_constraints c1 = (c_constraints st)(agents ! 0 \<mapsto> add_forbidden ca (get_x s, get_y s) t)"
    by blast
  from make_child_result [OF cb, of s t] obtain c2 where
    c2: "make_child st s t (agents ! 1) = Inr c2"
      "c_constraints c2 = (c_constraints st)(agents ! 1 \<mapsto> add_forbidden cb (get_x s, get_y s) t)"
    by blast
  have "successors st = Inr [c1, c2]"
    using assms(1-3) c1(1) c2(1) by (simp add: successors_def)
  moreover have "\<forall>a c u. is_forbidden (c_constraints c1) a c u =
              (is_forbidden (c_constraints st) a c u \<or>
               (a = agents ! 0 \<and> c = (get_x s, get_y s) \<and> u = t))"
    unfolding c1(2) using is_forbidden_add [of "c_constraints st" "agents ! 0" ca] ca by blast
  moreover have "\<forall>a c u. is_forbidden (c_constraints c2) a c u =
              (is_forbidden (c_constraints st) a c u \<or>
               (a = agents ! 1 \<and> c = (get_x s, get_y s) \<and> u = t))"
    unfolding c2(2) using is_forbidden_add [of "c_constraints st" "agents ! 1" cb] cb by blast
  ultimately show ?thesis
    using ord hc ca cb c1(2) c2(2) by blast
qed

theorem successors_two_children_witness:
  "\<exists>c1 c2. successors corridor_root = Inr [c1, c2] \<and>
      c_constraints c1 = (c_constraints corridor_root)(0 \<mapsto> [(1, 0) \<mapsto> {1}]) \<and>
      c_constraints c2 = (c_constraints corridor_root)(1 \<mapsto> [(1, 0) \<mapsto> {1}]) \<and>
      is_forbidden (c_constraints c1) 0 (1, 0) 1 \<and> \<not> is_forbidden (c_constraints c1) 1 (1, 0) 1 \<and>
      is_forbidden (c_constraints c2) 1 (1, 0) 1 \<and> \<not> is_forbidden (c_constraints c2) 0 (1, 0) 1"
proof -
  have k: "c_k corridor_root = 2"
    and c: "c_constraints corridor_root = (\<lambda>i. if i < 2 then Some Map.empty else None)"
    by (auto simp: corridor_root_def CBSState_init_def fun_eq_iff)
  have n: "\<forall>i < c_k corridor_root. c_constraints corridor_root i \<noteq> None"
    by (simp add: k c)
  have nf: "\<not> is_forbidden (c_constraints corridor_root) a cell u" for a cell u
    by (simp add: c is_forbidden_def forbidden_def)
  from successors_two_children [OF corridor_root_is_solution corridor_root_agents _ n]
  obtain c1 c2 ca cb where "successors corridor_root = Inr [c1, c2]"
    "c_constraints corridor_root 0 = Some ca" "c_constraints corridor_root 1 = Some cb"
    "c_constraints c1 = (c_constraints corridor_root)(0 \<mapsto> add_forbidden ca (1, 0) 1)"
    "c_constraints c2 = (c_constraints corridor_root)(1 \<mapsto> add_forbidden cb (1, 0) 1)"
    "\<forall>a c u. is_forbidden (c_constraints c1) a c u =
              (is_forbidden (c_constraints corridor_root) a c u \<or> (a = 0 \<and> c = (1, 0) \<and> u = 1))"
    "\<forall>a c u. is_forbidden (c_constraints c2) a c u =
              (is_forbidden (c_constraints corridor_root) a c u \<or> (a = 1 \<and> c = (1, 0) \<and> u = 1))"
    by auto
  then show ?thesis
    using nf by (auto simp: c add_forbidden_def)
qed

subsection \<open>Conflict detection\<close>

lemma path_len_path_at: "path_len ps i = length (path_at ps i)"
  by (simp add: path_len_def path_at_def split: option.splits)

lemma State_eq_trans: "State_eq a b \<Longrightarrow> State_eq b c \<Longrightarrow> State_eq a c"
  by (simp add: State_eq_def)

lemma dup_from_step: "m < k \<Longrightarrow> dup_from ps k t m = (dup_at ps t m \<or> dup_from ps k t (Suc m))"
  unfolding dup_from_def by (metis Suc_leI le_eq_less_or_eq Suc_leD order_refl)

lemma dup_from_empty: "k \<le> m \<Longrightarrow> \<not> dup_from ps k t m"
  unfolding dup_from_def by auto

lemma reports_Suc: "reports ps k t (Suc m) c \<Longrightarrow> reports ps k t m c"
  unfolding reports_def using Suc_leD by blast

lemma reports_here:
  "m < k \<Longrightarrow> dup_at ps t m \<Longrightarrow> reports ps k t m (Some (path_at ps m ! t, get_g (path_at ps m ! t)))"
  unfolding reports_def by blast

lemma is_solution_agents_scan:
  assumes "\<forall>i<k. \<exists>p. ps i = Some (Some p)"
    and "m \<le> k"
    and "\<forall>e. list_ex (\<lambda>x. State_eq x e) ss =
           (\<exists>i<m. t < length (path_at ps i) \<and> State_eq (path_at ps i ! t) e)"
  shows "\<exists>ss' fin' v' c'.
           is_solution_agents ps t [m..<k] (ss, fin, v, c) = Inr (ss', fin', v', c') \<and>
           (if dup_from ps k t m then v' = False \<and> reports ps k t m c' else v' = v \<and> c' = c)"
  using assms(2,3)
proof (induction "k - m" arbitrary: m ss fin v c)
  case 0
  then have "k \<le> m" "[m..<k] = []" by simp_all
  then show ?case by (simp add: dup_from_empty)
next
  case (Suc n)
  then have mk: "m < k" and n: "n = k - Suc m" and le: "Suc m \<le> k" by simp_all
  from assms(1) mk obtain p where p: "ps m = Some (Some p)" by blast
  then have pa: "path_at ps m = p" by (simp add: path_at_def)
  have upt: "[m..<k] = m # [Suc m..<k]" using mk by (simp add: upt_conv_Cons)
  let ?seen = "\<lambda>m e. \<exists>i<m. t < length (path_at ps i) \<and> State_eq (path_at ps i ! t) e"
  note step = dup_from_step [OF mk, of ps t]
  show ?case
  proof (cases "t < length p")
    case False
    then have nd: "\<not> dup_at ps t m" by (simp add: dup_at_def pa)
    have inv: "\<forall>e. list_ex (\<lambda>x. State_eq x e) ss = ?seen (Suc m) e"
      using Suc.prems(2) False pa by (auto simp: less_Suc_eq)
    from Suc.hyps(1) [OF n le inv, of "fin + 1" v c]
    obtain ss' fin' v' c' where
      r: "is_solution_agents ps t [Suc m..<k] (ss, fin + 1, v, c) = Inr (ss', fin', v', c')"
      and a: "if dup_from ps k t (Suc m) then v' = False \<and> reports ps k t (Suc m) c'
              else v' = v \<and> c' = c"
      by blast
    have run: "is_solution_agents ps t [m..<k] (ss, fin, v, c) = Inr (ss', fin', v', c')"
      using r p False by (simp add: upt)
    have "if dup_from ps k t m then v' = False \<and> reports ps k t m c' else v' = v \<and> c' = c"
      using a nd step reports_Suc [of ps k t m c'] by (auto split: if_splits)
    with run show ?thesis by blast
  next
    case True
    let ?cur = "p ! t"
    show ?thesis
    proof (cases "list_ex (\<lambda>e. State_eq e ?cur) ss")
      case mem: True
      with Suc.prems(2) have seen: "?seen m ?cur" by simp
      then have d: "dup_at ps t m" using True by (auto simp: dup_at_def pa)
      have inv: "\<forall>e. list_ex (\<lambda>x. State_eq x e) ss = ?seen (Suc m) e"
      proof
        fix e
        show "list_ex (\<lambda>x. State_eq x e) ss = ?seen (Suc m) e"
        proof
          assume "list_ex (\<lambda>x. State_eq x e) ss"
          with Suc.prems(2) have "?seen m e" by simp
          then show "?seen (Suc m) e" using less_Suc_eq by auto
        next
          assume "?seen (Suc m) e"
          then obtain i where i: "i < Suc m" "t < length (path_at ps i)" "State_eq (path_at ps i ! t) e"
            by blast
          show "list_ex (\<lambda>x. State_eq x e) ss"
          proof (cases "i = m")
            case True
            with i pa have "State_eq ?cur e" by simp
            with seen have "?seen m e" using State_eq_trans by blast
            with Suc.prems(2) show ?thesis by simp
          next
            case False
            with i have "i < m" by simp
            with i have "?seen m e" by blast
            with Suc.prems(2) show ?thesis by simp
          qed
        qed
      qed
      from Suc.hyps(1) [OF n le inv, of fin False "Some (?cur, get_g ?cur)"]
      obtain ss' fin' v' c' where
        r: "is_solution_agents ps t [Suc m..<k] (ss, fin, False, Some (?cur, get_g ?cur))
              = Inr (ss', fin', v', c')"
        and a: "if dup_from ps k t (Suc m) then v' = False \<and> reports ps k t (Suc m) c'
              else v' = False \<and> c' = Some (?cur, get_g ?cur)"
        by blast
      have run: "is_solution_agents ps t [m..<k] (ss, fin, v, c) = Inr (ss', fin', v', c')"
        using r p True mem by (simp add: upt)
      have "dup_from ps k t m" using d step by simp
      moreover have "v' = False \<and> reports ps k t m c'"
        using a reports_Suc [of ps k t m c'] reports_here [OF mk d] pa by (auto split: if_splits)
      ultimately show ?thesis using run by auto
    next
      case nmem: False
      with Suc.prems(2) have ns: "\<not> ?seen m ?cur" by simp
      then have nd: "\<not> dup_at ps t m" by (auto simp: dup_at_def pa)
      have inv: "\<forall>e. list_ex (\<lambda>x. State_eq x e) (ss @ [?cur]) = ?seen (Suc m) e"
        using Suc.prems(2) True pa by (auto simp: less_Suc_eq)
      from Suc.hyps(1) [OF n le inv, of fin v c]
      obtain ss' fin' v' c' where
        r: "is_solution_agents ps t [Suc m..<k] (ss @ [?cur], fin, v, c) = Inr (ss', fin', v', c')"
        and a: "if dup_from ps k t (Suc m) then v' = False \<and> reports ps k t (Suc m) c'
              else v' = v \<and> c' = c"
        by blast
      have run: "is_solution_agents ps t [m..<k] (ss, fin, v, c) = Inr (ss', fin', v', c')"
        using r p True nmem by (simp add: upt)
      have "if dup_from ps k t m then v' = False \<and> reports ps k t m c' else v' = v \<and> c' = c"
        using a nd step reports_Suc [of ps k t m c'] by (auto split: if_splits)
      with run show ?thesis by blast
    qed
  qed
qed

lemma filter_all_length:
  "length xs \<le> length (filter P xs) \<Longrightarrow> \<forall>x \<in> set xs. P x"
  by (metis le_antisym length_filter_le filter_True length_filter_less not_less)

lemma conflict_from_step: "conflict_from ps k t = (dup_from ps k t 0 \<or> conflict_from ps k (Suc t))"
  unfolding conflict_from_def by (metis Suc_leD Suc_leI le_eq_less_or_eq)

lemma no_conflict_after:
  assumes "\<forall>i<k. length (path_at ps i) \<le> t"
  shows "\<not> conflict_from ps k t"
  using assms unfolding conflict_from_def dup_from_def dup_at_def
  by (meson le_trans not_less)

declare is_solution_loop.simps [simp del]

lemma reports_last_Suc: "reports_last ps k (Suc t) c \<Longrightarrow> reports_last ps k t c"
  unfolding reports_last_def using Suc_leD by blast

lemma reports_last_here:
  "reports ps k t 0 c \<Longrightarrow> \<not> conflict_from ps k (Suc t) \<Longrightarrow> reports_last ps k t c"
  unfolding reports_last_def by blast

lemma is_solution_loop_result:
  assumes present: "\<forall>i<k. \<exists>p. ps i = Some (Some p)"
    and pre: "fin < k \<or> (\<forall>i<k. length (path_at ps i) \<le> t)"
  shows "\<exists>v' c'.
           is_solution_loop ps k t fin v c = Inr (v', c') \<and>
           (if conflict_from ps k t then v' = False \<and> reports_last ps k t c' else v' = v \<and> c' = c)"
  using pre
proof (induction "max_path_len ps k - t" arbitrary: t fin v c rule: less_induct)
  case less
  show ?case
  proof (cases "fin < k")
    case False
    with less.prems have all: "\<forall>i<k. length (path_at ps i) \<le> t" by simp
    from False have "is_solution_loop ps k t fin v c = Inr (v, c)"
      by (subst is_solution_loop.simps) simp
    with no_conflict_after [OF all] show ?thesis by simp
  next
    case True
    have inv0: "\<forall>e. list_ex (\<lambda>x. State_eq x e) [] =
           (\<exists>i<0. t < length (path_at ps i) \<and> State_eq (path_at ps i ! t) e)"
      by simp
    from is_solution_agents_scan [OF present _ inv0, of 0 v c]
    obtain ss' fin' v1 c1 where
      run: "is_solution_agents ps t [0..<k] ([], 0, v, c) = Inr (ss', fin', v1, c1)"
      and post: "if dup_from ps k t 0 then v1 = False \<and> reports ps k t 0 c1 else v1 = v \<and> c1 = c"
      by auto
    have unfold: "is_solution_loop ps k t fin v c = is_solution_loop ps k (Suc t) fin' v1 c1"
      using True run by (subst is_solution_loop.simps) simp
    note cstep = conflict_from_step [of ps k t]
    show ?thesis
    proof (cases "fin' < k")
      case fin': True
      from is_solution_agents_unfinished [OF run fin'] have "t < max_path_len ps k" .
      then have dec: "max_path_len ps k - Suc t < max_path_len ps k - t" by simp
      from less.hyps [OF dec, of fin' v1 c1] fin'
      obtain v' c' where
        r: "is_solution_loop ps k (Suc t) fin' v1 c1 = Inr (v', c')"
        and a: "if conflict_from ps k (Suc t) then v' = False \<and> reports_last ps k (Suc t) c'
                else v' = v1 \<and> c' = c1"
        by auto
      have "if conflict_from ps k t then v' = False \<and> reports_last ps k t c' else v' = v \<and> c' = c"
      proof (cases "conflict_from ps k (Suc t)")
        case True
        with a cstep reports_last_Suc [of ps k t c'] show ?thesis by simp
      next
        case nc: False
        with a have e: "v' = v1" "c' = c1" by simp_all
        show ?thesis
        proof (cases "dup_from ps k t 0")
          case True
          with post e nc cstep reports_last_here [of ps k t c1] show ?thesis by simp
        next
          case False
          with post e nc cstep show ?thesis by simp
        qed
      qed
      with unfold r show ?thesis by simp
    next
      case nfin: False
      from is_solution_agents_finished [OF run]
      have "fin' = length (filter (\<lambda>i. \<not> t < path_len ps i) [0..<k])" by simp
      with nfin have "length [0..<k] \<le> length (filter (\<lambda>i. \<not> t < path_len ps i) [0..<k])"
        by simp
      from filter_all_length [OF this]
      have all: "\<forall>i<k. length (path_at ps i) \<le> t"
        by (simp add: path_len_path_at not_less)
      from no_conflict_after [OF all] have nc: "\<not> conflict_from ps k t" .
      with cstep post have e: "v1 = v" "c1 = c" by simp_all
      from nfin have "is_solution_loop ps k (Suc t) fin' v1 c1 = Inr (v1, c1)"
        by (subst is_solution_loop.simps) simp
      with unfold e nc show ?thesis by simp
    qed
  qed
qed


lemma timed_paths_at:
  assumes "timed_paths ps k" "i < k"
  shows "\<exists>p. ps i = Some (Some p) \<and> (\<forall>t<length p. get_g (p ! t) = int t)"
proof -
  from assms have c: "case ps i of
      Some (Some p) \<Rightarrow> list_all (\<lambda>t. get_g (p ! t) = int t) [0..<length p] | _ \<Rightarrow> False"
    by (simp add: timed_paths_def list_all_iff)
  show ?thesis
  proof (cases "ps i")
    case None
    with c show ?thesis by simp
  next
    case (Some q)
    with c show ?thesis by (cases q) (simp_all add: list_all_iff)
  qed
qed

lemma timed_paths_present: "timed_paths ps k \<Longrightarrow> \<forall>i<k. \<exists>p. ps i = Some (Some p)"
  using timed_paths_at by blast

lemma timed_paths_g:
  "timed_paths ps k \<Longrightarrow> i < k \<Longrightarrow> t < length (path_at ps i) \<Longrightarrow> get_g (path_at ps i ! t) = int t"
  using timed_paths_at [of ps k i] by (auto simp: path_at_def)

lemma vertex_conflict_iff:
  "vertex_conflict ps k t =
     (\<exists>i j. i < j \<and> j < k \<and> t < length (path_at ps i) \<and> t < length (path_at ps j) \<and>
            same_cell (path_at ps i ! t) (path_at ps j ! t))"
  unfolding vertex_conflict_def list_ex_iff by (simp add: Bex_def) blast

lemma occupied_twice_iff:
  "occupied_twice ps k t s =
     (\<exists>i j. i < j \<and> j < k \<and> t < length (path_at ps i) \<and> t < length (path_at ps j) \<and>
            path_at ps j ! t = s \<and> same_cell (path_at ps i ! t) s)"
  unfolding occupied_twice_def list_ex_iff by (simp add: Bex_def) blast

lemma timed_State_eq:
  assumes "timed_paths ps k" "i < k" "j < k" "t < length (path_at ps i)" "t < length (path_at ps j)"
  shows "State_eq (path_at ps i ! t) (path_at ps j ! t) = same_cell (path_at ps i ! t) (path_at ps j ! t)"
  using timed_paths_g [OF assms(1,2,4)] timed_paths_g [OF assms(1,3,5)]
  by (simp add: State_eq_def same_cell_def)

lemma vertex_conflict_dup:
  assumes "timed_paths ps k"
  shows "vertex_conflict ps k t = dup_from ps k t 0"
proof
  assume "vertex_conflict ps k t"
  then obtain i j where ij: "i < j" "j < k" "t < length (path_at ps i)" "t < length (path_at ps j)"
    "same_cell (path_at ps i ! t) (path_at ps j ! t)"
    unfolding vertex_conflict_iff by blast
  with timed_State_eq [OF assms, of i j t] have "State_eq (path_at ps i ! t) (path_at ps j ! t)"
    by simp
  with ij show "dup_from ps k t 0"
    unfolding dup_from_def dup_at_def by blast
next
  assume "dup_from ps k t 0"
  then obtain i j where ij: "i < j" "j < k" "t < length (path_at ps i)" "t < length (path_at ps j)"
    "State_eq (path_at ps i ! t) (path_at ps j ! t)"
    unfolding dup_from_def dup_at_def by blast
  with timed_State_eq [OF assms, of i j t] have "same_cell (path_at ps i ! t) (path_at ps j ! t)"
    by simp
  with ij show "vertex_conflict ps k t"
    unfolding vertex_conflict_iff by blast
qed

lemma reports_occupied:
  assumes "timed_paths ps k" "reports ps k t 0 c"
  shows "\<exists>s. c = Some (s, int t) \<and> occupied_twice ps k t s"
proof -
  from assms(2) obtain i j where ij: "i < j" "j < k" "t < length (path_at ps i)" "t < length (path_at ps j)"
    "State_eq (path_at ps i ! t) (path_at ps j ! t)"
    and c: "c = Some (path_at ps j ! t, get_g (path_at ps j ! t))"
    unfolding reports_def dup_at_def by blast
  from timed_State_eq [OF assms(1), of i j t] ij
  have sc: "same_cell (path_at ps i ! t) (path_at ps j ! t)" by simp
  have g: "get_g (path_at ps j ! t) = int t"
    using timed_paths_g [OF assms(1) ij(2,4)] .
  have "occupied_twice ps k t (path_at ps j ! t)"
    unfolding occupied_twice_iff using ij sc by blast
  with c g show ?thesis by simp
qed

lemma crossing_node_facts:
  "timed_paths (c_paths crossing_node) (c_k crossing_node)"
  "vertex_conflict (c_paths crossing_node) (c_k crossing_node) 1"
  "\<not> vertex_conflict (c_paths crossing_node) (c_k crossing_node) 0"
  "is_solution crossing_node = Inr (False, Some (State 2 1 2 3 None, 2))"
  by code_simp+



text \<open>
  C2, as stated, fails: the paths of \<open>crossing_node\<close> have no conflict at time 0, a
  conflict at time 1 and one at time 2; \<open>is_solution\<close> reports the state at \<open>(2,1)\<close> with
  time 2, not the conflict of time 1.
\<close>

theorem is_solution_not_first_conflict:
  "timed_paths (c_paths crossing_node) (c_k crossing_node) \<and>
   \<not> vertex_conflict (c_paths crossing_node) (c_k crossing_node) 0 \<and>
   vertex_conflict (c_paths crossing_node) (c_k crossing_node) 1 \<and>
   is_solution crossing_node = Inr (False, Some (State 2 1 2 3 None, 2))"
  using crossing_node_facts by simp


text \<open>
  C2, amended. Let every agent have a path whose states carry their index as time, and
  let there be a vertex conflict at some index. Then \<open>is_solution\<close> returns \<open>False\<close> with a
  state \<open>s\<close> and a time \<open>T\<close> such that two distinct agents are in the cell of \<open>s\<close> at index
  \<open>T\<close>, \<open>s\<close> being the state of the later of the two, and \<open>T\<close> is the largest index with a
  vertex conflict: the scan goes on after a conflict and a later conflict replaces an
  earlier one.
\<close>

theorem is_solution_reports_last_conflict:
  assumes "timed_paths (c_paths st) (c_k st)"
    and "vertex_conflict (c_paths st) (c_k st) t0"
  shows "\<exists>s T. is_solution st = Inr (False, Some (s, int T)) \<and>
           vertex_conflict (c_paths st) (c_k st) T \<and>
           occupied_twice (c_paths st) (c_k st) T s \<and>
           (\<forall>u. vertex_conflict (c_paths st) (c_k st) u \<longrightarrow> u \<le> T)"
proof -
  let ?ps = "c_paths st" and ?k = "c_k st"
  have pre: "0 < ?k \<or> (\<forall>i< ?k. length (path_at ?ps i) \<le> 0)" by auto
  from is_solution_loop_result [OF timed_paths_present [OF assms(1)] pre, of True None]
  obtain v' c' where
    r: "is_solution_loop ?ps ?k 0 0 True None = Inr (v', c')"
    and a: "if conflict_from ?ps ?k 0 then v' = False \<and> reports_last ?ps ?k 0 c'
            else v' = True \<and> c' = None"
    by blast
  from assms(2) have "dup_from ?ps ?k t0 0"
    by (simp add: vertex_conflict_dup [OF assms(1)])
  then have "conflict_from ?ps ?k 0" unfolding conflict_from_def by blast
  with a have v: "v' = False" and "reports_last ?ps ?k 0 c'" by simp_all
  then obtain T where T: "reports ?ps ?k T 0 c'" "\<not> conflict_from ?ps ?k (Suc T)"
    unfolding reports_last_def by blast
  from reports_occupied [OF assms(1) T(1)] obtain s where
    s: "c' = Some (s, int T)" "occupied_twice ?ps ?k T s" by blast
  have "dup_from ?ps ?k T 0" using T(1) unfolding reports_def dup_from_def by blast
  then have vc: "vertex_conflict ?ps ?k T" by (simp add: vertex_conflict_dup [OF assms(1)])
  have "u \<le> T" if "vertex_conflict ?ps ?k u" for u
  proof (rule ccontr)
    assume "\<not> u \<le> T"
    then have "Suc T \<le> u" by simp
    moreover from that have "dup_from ?ps ?k u 0" by (simp add: vertex_conflict_dup [OF assms(1)])
    ultimately have "conflict_from ?ps ?k (Suc T)" unfolding conflict_from_def by blast
    with T(2) show False by simp
  qed
  with r v s vc show ?thesis by (auto simp: is_solution_def)
qed

theorem is_solution_reports_last_conflict_witness:
  "is_solution crossing_node = Inr (False, Some (State 2 1 2 3 None, 2)) \<and>
   vertex_conflict (c_paths crossing_node) (c_k crossing_node) 2 \<and>
   occupied_twice (c_paths crossing_node) (c_k crossing_node) 2 (State 2 1 2 3 None)"
proof -
  from is_solution_reports_last_conflict [OF crossing_node_facts(1,2)]
  obtain s T where
    r: "is_solution crossing_node = Inr (False, Some (s, int T))"
    and v: "vertex_conflict (c_paths crossing_node) (c_k crossing_node) T"
    and o: "occupied_twice (c_paths crossing_node) (c_k crossing_node) T s"
    by blast
  from r crossing_node_facts(4) have "s = State 2 1 2 3 None" "T = 2" by simp_all
  with v o crossing_node_facts(4) show ?thesis by simp
qed

subsection \<open>The priority queue: length and contents\<close>

declare siftdown_loop.simps [simp del] siftup_loop.simps [simp del]

lemma siftdown_loop_step:
  "siftdown_loop heap sp x pos =
     (if sp < pos \<and> State_lt x (heap ! ((pos - 1) div 2))
      then siftdown_loop (heap[pos := heap ! ((pos - 1) div 2)]) sp x ((pos - 1) div 2)
      else heap[pos := x])"
  by (subst siftdown_loop.simps) (simp add: Let_def)

lemma siftup_loop_step:
  "siftup_loop heap endpos pos childpos =
     (if childpos < endpos
      then siftup_loop (heap[pos := heap ! smaller_child heap endpos childpos]) endpos
             (smaller_child heap endpos childpos) (2 * smaller_child heap endpos childpos + 1)
      else (heap, pos))"
  by (subst siftup_loop.simps) (simp add: Let_def smaller_child_def)

lemma siftdown_loop_length [simp]:
  "length (siftdown_loop heap sp x pos) = length heap"
proof (induction pos arbitrary: heap rule: less_induct)
  case (less pos)
  show ?case
  proof (cases "sp < pos \<and> State_lt x (heap ! ((pos - 1) div 2))")
    case True
    then have "(pos - 1) div 2 < pos" by auto
    from less [OF this] True show ?thesis
      by (subst siftdown_loop_step) simp
  next
    case False
    then show ?thesis by (subst siftdown_loop_step) auto
  qed
qed

lemma mset_update_swap:
  assumes "pos < length heap" "pp < length heap" "pos \<noteq> pp"
  shows "mset (heap[pos := heap ! pp, pp := x]) = mset (heap[pos := x])"
  using assms by (simp add: mset_update nth_list_update)

lemma siftdown_loop_mset:
  "pos < length heap \<Longrightarrow> mset (siftdown_loop heap sp x pos) = mset (heap[pos := x])"
proof (induction pos arbitrary: heap rule: less_induct)
  case (less pos)
  let ?pp = "(pos - 1) div 2"
  show ?case
  proof (cases "sp < pos \<and> State_lt x (heap ! ?pp)")
    case True
    with less.prems have pp: "?pp < pos" "?pp < length heap" by auto
    have "siftdown_loop heap sp x pos = siftdown_loop (heap[pos := heap ! ?pp]) sp x ?pp"
      using True by (subst siftdown_loop_step) simp
    also have "mset \<dots> = mset (heap[pos := heap ! ?pp, ?pp := x])"
      using less.IH [OF pp(1), of "heap[pos := heap ! ?pp]"] pp by simp
    also have "\<dots> = mset (heap[pos := x])"
      using mset_update_swap [of pos heap ?pp x] pp less.prems by simp
    finally show ?thesis .
  next
    case False
    then show ?thesis by (subst siftdown_loop_step) auto
  qed
qed

lemma siftdown_mset: "pos < length heap \<Longrightarrow> mset (siftdown heap sp pos) = mset heap"
  by (simp add: siftdown_def siftdown_loop_mset)

lemma siftdown_length [simp]: "length (siftdown heap sp pos) = length heap"
  by (simp add: siftdown_def)

lemma heappush_mset: "mset (heappush heap item) = add_mset item (mset heap)"
  by (simp add: heappush_def siftdown_mset)

lemma heappush_length [simp]: "length (heappush heap item) = Suc (length heap)"
  by (simp add: heappush_def)

lemma smaller_child_bounds:
  "childpos < endpos \<Longrightarrow>
   childpos \<le> smaller_child heap endpos childpos \<and> smaller_child heap endpos childpos < endpos \<and>
   smaller_child heap endpos childpos \<le> childpos + 1"
  by (simp add: smaller_child_def)

lemma siftup_loop_props:
  "pos < childpos \<Longrightarrow> pos < length heap \<Longrightarrow>
   siftup_loop heap (length heap) pos childpos = (heap', pos') \<Longrightarrow>
   length heap' = length heap \<and> pos' < length heap \<and> pos \<le> pos' \<and>
   (\<forall>x. mset (heap'[pos' := x]) = mset (heap[pos := x]))"
proof (induction "length heap - childpos" arbitrary: heap pos childpos rule: less_induct)
  case less
  show ?case
  proof (cases "childpos < length heap")
    case False
    with less.prems(3) have "heap' = heap" "pos' = pos"
      by (subst (asm) siftup_loop_step, simp)+
    with less.prems(2) show ?thesis by simp
  next
    case True
    let ?c = "smaller_child heap (length heap) childpos"
    from smaller_child_bounds [OF True, of heap] less.prems(1)
    have c: "?c < length heap" "pos < ?c" "childpos \<le> ?c" by auto
    have rec: "siftup_loop (heap[pos := heap ! ?c]) (length (heap[pos := heap ! ?c])) ?c (2 * ?c + 1)
               = (heap', pos')"
      using less.prems(3) True by (subst (asm) siftup_loop_step) simp
    have dec: "length (heap[pos := heap ! ?c]) - (2 * ?c + 1) < length heap - childpos"
      using c True by simp
    from less.hyps [OF dec _ _ rec] c
    have "length heap' = length heap" "pos' < length heap" "?c \<le> pos'"
      and m: "\<forall>x. mset (heap'[pos' := x]) = mset (heap[pos := heap ! ?c, ?c := x])"
      by simp_all
    moreover have "mset (heap[pos := heap ! ?c, ?c := x]) = mset (heap[pos := x])" for x
      using mset_update_swap [of pos heap ?c x] c less.prems(2) by simp
    ultimately show ?thesis using c by simp
  qed
qed

lemma siftup_mset: "pos < length heap \<Longrightarrow> mset (siftup heap pos) = mset heap"
proof -
  assume p: "pos < length heap"
  obtain heap' pos' where r: "siftup_loop heap (length heap) pos (2 * pos + 1) = (heap', pos')"
    by (cases "siftup_loop heap (length heap) pos (2 * pos + 1)")
  from siftup_loop_props [OF _ p r]
  have "pos' < length heap'" "mset (heap'[pos' := heap ! pos]) = mset (heap[pos := heap ! pos])"
    by simp_all
  then show ?thesis
    using r by (simp add: siftup_def Let_def siftdown_mset)
qed

lemma heappop_None: "heappop heap = None \<longleftrightarrow> heap = []"
  by (simp add: heappop_def Let_def)

lemma heappop_mset:
  assumes "heappop heap = Some (x, heap')"
  shows "mset heap = add_mset x (mset heap')"
proof -
  from assms have ne: "heap \<noteq> []" by (auto simp: heappop_def)
  then have sn: "heap = butlast heap @ [last heap]" by simp
  show ?thesis
  proof (cases "butlast heap = []")
    case True
    with assms ne have "x = last heap" "heap' = []" by (auto simp: heappop_def Let_def)
    with sn True show ?thesis by (metis append_Nil mset.simps(1) mset.simps(2))
  next
    case False
    let ?b = "butlast heap"
    from False assms ne have x: "x = ?b ! 0" and h: "heap' = siftup (?b[0 := last heap]) 0"
      by (auto simp: heappop_def Let_def)
    from False have l: "0 < length ?b" by (cases "butlast heap") simp_all
    then have "mset heap' = mset (?b[0 := last heap])"
      unfolding h by (simp add: siftup_mset)
    also have "\<dots> = add_mset (last heap) (mset ?b - {#?b ! 0#})"
      using l by (simp add: mset_update)
    finally have "add_mset x (mset heap') = add_mset (last heap) (mset ?b)"
      using l x by simp
    also have "\<dots> = mset heap" by (subst (2) sn) simp
    finally show ?thesis by simp
  qed
qed

lemma heappop_length: "heappop heap = Some (x, heap') \<Longrightarrow> length heap = Suc (length heap')"
  using heappop_mset [of heap x heap'] by (metis size_add_mset size_mset)

subsection \<open>The loop of the search, by iterations\<close>

lemma astar_loop_unfold:
  "astar_loop gm mw goal cs oc =
     (case astar_exit goal oc of
        Some r \<Rightarrow> Some r
      | None \<Rightarrow> (case astar_next gm mw goal cs oc of
                   None \<Rightarrow> None
                 | Some oc' \<Rightarrow> astar_loop gm mw goal cs oc'))"
  by (subst astar_loop.simps) (simp add: astar_exit_def astar_next_def split: option.splits)

lemma astar_next_no_exit: "astar_next gm mw goal cs oc = Some oc' \<Longrightarrow> astar_exit goal oc = None"
  by (auto simp: astar_exit_def astar_next_def split: option.splits if_splits)

lemma astar_iter_returns:
  "astar_iter gm mw goal cs n oc = Some oc' \<Longrightarrow> astar_exit goal oc' = Some r \<Longrightarrow>
   astar_loop gm mw goal cs oc = Some r"
proof (induction n arbitrary: oc)
  case 0
  then show ?case by (subst astar_loop_unfold) simp
next
  case (Suc n)
  then obtain oc1 where n: "astar_next gm mw goal cs oc = Some oc1"
    and i: "astar_iter gm mw goal cs n oc1 = Some oc'"
    by (auto split: option.splits)
  from Suc.IH [OF i Suc.prems(2)] astar_next_no_exit [OF n] n show ?case
    by (subst astar_loop_unfold) simp
qed

lemma astar_iter_Suc_left:
  "astar_next gm mw goal cs oc = Some oc1 \<Longrightarrow> astar_iter gm mw goal cs n oc1 = Some oc' \<Longrightarrow>
   astar_iter gm mw goal cs (Suc n) oc = Some oc'"
  by simp

lemma astar_loop_returns:
  assumes "astar_loop gm mw goal cs oc = Some r"
  shows "\<exists>n oc'. astar_iter gm mw goal cs n oc = Some oc' \<and> astar_exit goal oc' = Some r"
proof (rule astar_loop.raw_induct [where P = "\<lambda>gm mw goal cs oc r.
    \<exists>n oc'. astar_iter gm mw goal cs n oc = Some oc' \<and> astar_exit goal oc' = Some r"],
    goal_cases)
  case 2
  show ?case by (rule assms)
next
  case (1 loop gm mw goal cs oc r)
  have body: "(case astar_exit goal oc of
        Some r \<Rightarrow> Some r
      | None \<Rightarrow> (case astar_next gm mw goal cs oc of
                   None \<Rightarrow> None
                 | Some oc' \<Rightarrow> loop gm mw goal cs oc')) = Some r"
    using 1(2) by (auto simp: astar_exit_def astar_next_def split: option.splits if_splits)
  show ?case
  proof (cases "astar_exit goal oc")
    case (Some r')
    with body have "astar_iter gm mw goal cs 0 oc = Some oc \<and> astar_exit goal oc = Some r"
      by simp
    then show ?thesis by blast
  next
    case None
    with body obtain oc1 where n: "astar_next gm mw goal cs oc = Some oc1"
      and l: "loop gm mw goal cs oc1 = Some r"
      by (cases "astar_next gm mw goal cs oc") simp_all
    from 1(1) [OF l] obtain n' oc' where
      "astar_iter gm mw goal cs n' oc1 = Some oc'" "astar_exit goal oc' = Some r" by blast
    with astar_iter_Suc_left [OF n] show ?thesis by blast
  qed
qed

lemma astar_loop_iff:
  "astar_loop gm mw goal cs oc = Some r \<longleftrightarrow>
   (\<exists>n oc'. astar_iter gm mw goal cs n oc = Some oc' \<and> astar_exit goal oc' = Some r)"
  using astar_loop_returns astar_iter_returns by blast

lemma AStar_search_loop:
  "AStar_search mw a start goal cs =
     map_option (\<lambda>(r, ol, cl).
         (r, a\<lparr>a_start := Some (AStar_compute_cost goal start), a_goal := Some goal,
                OPEN := ol, CLOSED := cl\<rparr>))
       (astar_loop (a_map a) mw goal cs (astar_start mw goal start))"
proof -
  have h: "State_hash mw (AStar_compute_cost goal start) = State_hash mw start"
    by (simp add: State_hash_def AStar_compute_cost_def set_cost_def)
  show ?thesis
    unfolding AStar_search_def Let_def astar_start_def
    by (simp add: h split: option.splits)
qed

lemma AStar_search_iff:
  "AStar_search mw a start goal cs = Some (r, a') \<longleftrightarrow>
   (\<exists>n oc ol cl. astar_iter (a_map a) mw goal cs n (astar_start mw goal start) = Some oc \<and>
       astar_exit goal oc = Some (r, ol, cl) \<and>
       a' = a\<lparr>a_start := Some (AStar_compute_cost goal start), a_goal := Some goal,
              OPEN := ol, CLOSED := cl\<rparr>)"
proof
  assume "AStar_search mw a start goal cs = Some (r, a')"
  then obtain ol cl where
    l: "astar_loop (a_map a) mw goal cs (astar_start mw goal start) = Some (r, ol, cl)"
    and a': "a' = a\<lparr>a_start := Some (AStar_compute_cost goal start), a_goal := Some goal,
              OPEN := ol, CLOSED := cl\<rparr>"
    unfolding AStar_search_loop by auto
  from astar_loop_returns [OF l] a' show "\<exists>n oc ol cl.
       astar_iter (a_map a) mw goal cs n (astar_start mw goal start) = Some oc \<and>
       astar_exit goal oc = Some (r, ol, cl) \<and>
       a' = a\<lparr>a_start := Some (AStar_compute_cost goal start), a_goal := Some goal,
              OPEN := ol, CLOSED := cl\<rparr>"
    by blast
next
  assume "\<exists>n oc ol cl. astar_iter (a_map a) mw goal cs n (astar_start mw goal start) = Some oc \<and>
       astar_exit goal oc = Some (r, ol, cl) \<and>
       a' = a\<lparr>a_start := Some (AStar_compute_cost goal start), a_goal := Some goal,
              OPEN := ol, CLOSED := cl\<rparr>"
  then obtain n oc ol cl where
    i: "astar_iter (a_map a) mw goal cs n (astar_start mw goal start) = Some oc"
    and e: "astar_exit goal oc = Some (r, ol, cl)"
    and a': "a' = a\<lparr>a_start := Some (AStar_compute_cost goal start), a_goal := Some goal,
              OPEN := ol, CLOSED := cl\<rparr>"
    by blast
  from astar_iter_returns [OF i e] a' show "AStar_search mw a start goal cs = Some (r, a')"
    unfolding AStar_search_loop by simp
qed

subsection \<open>The states in OPEN and CLOSED\<close>

lemma make_node_simps [simp]:
  "get_x (make_node goal node ch) = get_x ch"
  "get_y (make_node goal node ch) = get_y ch"
  "get_g (make_node goal node ch) = get_g ch"
  "get_cost (make_node goal node ch) = get_g ch + get_heuristic ch goal"
  "get_parent (make_node goal node ch) = Some node"
  by (simp_all add: make_node_def set_parent_def AStar_compute_cost_def set_cost_def)

lemma State_hash_make_node [simp]: "State_hash mw (make_node goal node ch) = State_hash mw ch"
  by (simp add: State_hash_def)

lemma expand_child_cases:
  "expand_child mw goal node (ol, cl) ch =
     (case cl (State_hash mw ch) of
        None \<Rightarrow> (heappush ol (make_node goal node ch), cl(State_hash mw ch \<mapsto> make_node goal node ch))
      | Some old \<Rightarrow>
          if get_g old > get_g ch
          then (heappush ol (make_node goal node ch), cl(State_hash mw ch \<mapsto> make_node goal node ch))
          else (ol, cl))"
  by (simp add: expand_child_def Let_def make_node_def [symmetric] split: option.splits)

lemma set_heappush [simp]: "set (heappush ol x) = insert x (set ol)"
  using heappush_mset [of ol x] by (metis set_mset_add_mset_insert set_mset_mset)

lemma heappop_set:
  "heappop ol = Some (x, ol') \<Longrightarrow> x \<in> set ol \<and> set ol' \<subseteq> set ol"
  using heappop_mset [of ol x ol']
  by (metis insert_iff set_mset_add_mset_insert set_mset_mset subsetI)

lemma ran_upd_subset: "ran (m(k \<mapsto> v)) \<subseteq> insert v (ran m)"
  by (auto simp: ran_def)

lemma expand_child_nodes:
  "nodes_of (expand_child mw goal node oc ch) \<subseteq> insert (make_node goal node ch) (nodes_of oc)"
proof (cases oc)
  case (Pair ol cl)
  show ?thesis
    unfolding Pair expand_child_cases nodes_of_def
    using ran_upd_subset [of cl "State_hash mw ch" "make_node goal node ch"]
    by (auto split: option.splits)
qed

lemma foldl_expand_nodes:
  "nodes_of (foldl (expand_child mw goal node) oc chs) \<subseteq>
     nodes_of oc \<union> make_node goal node ` set chs"
proof (induction chs arbitrary: oc)
  case Nil
  then show ?case by simp
next
  case (Cons ch chs)
  from Cons [of "expand_child mw goal node oc ch"] expand_child_nodes [of mw goal node oc ch]
  show ?case by auto
qed

lemma astar_next_nodes:
  assumes "astar_next gm mw goal cs oc = Some oc'"
  shows "\<exists>node. node \<in> set (fst oc) \<and> \<not> is_goal node goal \<and>
           nodes_of oc' \<subseteq> nodes_of oc \<union> make_node goal node ` set (gm node cs)"
proof -
  from assms obtain node ol where p: "heappop (fst oc) = Some (node, ol)"
    and g: "\<not> is_goal node goal"
    and oc': "oc' = foldl (expand_child mw goal node) (ol, snd oc) (gm node cs)"
    by (auto simp: astar_next_def split: if_splits option.splits)
  from heappop_set [OF p] have "node \<in> set (fst oc)" "nodes_of (ol, snd oc) \<subseteq> nodes_of oc"
    by (auto simp: nodes_of_def)
  with foldl_expand_nodes [of mw goal node "(ol, snd oc)" "gm node cs"] g oc'
  show ?thesis by blast
qed

lemma astar_iter_invariant:
  assumes "astar_iter gm mw goal cs n oc = Some oc'"
    and "\<forall>x \<in> nodes_of oc. P x"
    and step: "\<And>node ch. P node \<Longrightarrow> \<not> is_goal node goal \<Longrightarrow> ch \<in> set (gm node cs) \<Longrightarrow>
                P (make_node goal node ch)"
  shows "\<forall>x \<in> nodes_of oc'. P x"
  using assms(1,2)
proof (induction n arbitrary: oc)
  case 0
  then show ?case by simp
next
  case (Suc n)
  then obtain oc1 where n: "astar_next gm mw goal cs oc = Some oc1"
    and i: "astar_iter gm mw goal cs n oc1 = Some oc'"
    by (auto split: option.splits)
  from astar_next_nodes [OF n] obtain node where
    node: "node \<in> set (fst oc)" "\<not> is_goal node goal"
      "nodes_of oc1 \<subseteq> nodes_of oc \<union> make_node goal node ` set (gm node cs)"
    by blast
  from node(1) Suc.prems(2) have "P node" by (simp add: nodes_of_def)
  with step node(2) have "\<forall>ch \<in> set (gm node cs). P (make_node goal node ch)" by blast
  with node(3) Suc.prems(2) have "\<forall>x \<in> nodes_of oc1. P x" by blast
  from Suc.IH [OF i this] show ?case .
qed

lemma nodes_of_start [simp]: "nodes_of (astar_start mw goal start) = {AStar_compute_cost goal start}"
  by (simp add: nodes_of_def astar_start_def heappush_def siftdown_def siftdown_loop_step)

lemma astar_exit_success:
  assumes "astar_exit goal oc = Some ((c, Some path), ol, cl)"
  shows "\<exists>node. heappop (fst oc) = Some (node, ol) \<and> node \<in> nodes_of oc \<and> is_goal node goal \<and>
           c = get_g node \<and> path = recover_path node \<and> cl = snd oc"
proof -
  from assms obtain node where "heappop (fst oc) = Some (node, ol)" "is_goal node goal"
    "c = get_g node" "path = recover_path node" "cl = snd oc"
    by (auto simp: astar_exit_def split: if_splits option.splits)
  with heappop_set [of "fst oc" node ol] show ?thesis
    by (auto simp: nodes_of_def)
qed

lemma astar_exit_failure:
  "astar_exit goal oc = Some ((c, None), ol, cl) \<longleftrightarrow> c = - 1 \<and> fst oc = [] \<and> ol = [] \<and> cl = snd oc"
  by (auto simp: astar_exit_def split: if_splits option.splits)

lemma astar_exit_popped:
  "heappop (fst oc) = Some (node, ol) \<Longrightarrow> is_goal node goal \<Longrightarrow>
   astar_exit goal oc = Some ((get_g node, Some (recover_path node)), ol, snd oc)"
  by (cases "fst oc = []") (auto simp: astar_exit_def heappop_def)

subsection \<open>The search returns\<close>

text \<open>
  A child is pushed only when its key is new or when its time is earlier than the time
  stored for its key. There are finitely many keys, because the key is a 64-bit hash, and
  times do not fall below the time of the start when time never goes backwards from a
  state to its children. So the loop stops, with OPEN empty or with a state at the goal.
\<close>

lemma finite_hash_range [simp]: "finite hash_range"
  by (simp add: hash_range_def)

lemma State_hash_range: "State_hash mw s \<in> hash_range"
proof -
  have "- (2 ^ 63) \<le> sint (w :: 64 word) \<and> sint w < 2 ^ 63" for w
    using sint_ge [of w] sint_lt [of w] by simp
  then show ?thesis
    by (simp add: State_hash_def py_hash_pair_def Let_def hash_range_def)
qed

lemma progress_trans: "progress L a b \<Longrightarrow> progress L b c \<Longrightarrow> progress L a c"
  by (auto simp: progress_def)

lemma expand_child_order:
  assumes "search_inv L (ol, cl)" and "L \<le> get_g ch"
  shows "search_inv L (expand_child mw goal node (ol, cl) ch) \<and>
         (expand_child mw goal node (ol, cl) ch = (ol, cl) \<or>
          progress L (ol, cl) (expand_child mw goal node (ol, cl) ch))"
proof -
  let ?k = "State_hash mw ch" and ?v = "make_node goal node ch"
  let ?oc' = "(heappush ol ?v, cl(?k \<mapsto> ?v))"
  from assms(1) have d: "dom cl \<subseteq> hash_range" and g: "\<forall>x \<in> set ol \<union> ran cl. L \<le> get_g x"
    by (simp_all add: search_inv_def nodes_of_def)
  have fin: "finite (dom cl)" using d finite_hash_range by (rule finite_subset)
  have inv': "search_inv L ?oc'"
    using d g assms(2) State_hash_range [of mw ch] ran_upd_subset [of cl ?k ?v]
    by (auto simp: search_inv_def nodes_of_def)
  show ?thesis
  proof (cases "cl ?k")
    case None
    then have "?k \<in> hash_range - dom cl" using State_hash_range [of mw ch] by auto
    then have "card (hash_range - dom cl - {?k}) < card (hash_range - dom cl)"
      by (intro card_Diff1_less) simp_all
    moreover have "hash_range - dom (cl(?k \<mapsto> ?v)) = hash_range - dom cl - {?k}" by auto
    ultimately have "progress L (ol, cl) ?oc'"
      by (simp add: progress_def free_keys_def)
    with inv' None show ?thesis by (simp add: expand_child_cases)
  next
    case (Some old)
    show ?thesis
    proof (cases "get_g old > get_g ch")
      case False
      with Some assms(1) show ?thesis by (simp add: expand_child_cases)
    next
      case True
      from Some have k: "?k \<in> dom cl" by auto
      then have dom: "insert ?k (dom cl) = dom cl" by auto
      let ?f = "\<lambda>k. nat (get_g (the (cl k)) - L)"
      let ?f' = "\<lambda>k. nat (get_g (the ((cl(?k \<mapsto> ?v)) k)) - L)"
      have "\<forall>x \<in> dom cl. ?f' x \<le> ?f x" using True Some by auto
      moreover have "?f' ?k < ?f ?k" using True Some assms(2) by simp
      ultimately have "sum ?f' (dom cl) < sum ?f (dom cl)"
        using fin k by (intro sum_strict_mono_ex1) auto
      then have "progress L (ol, cl) ?oc'"
        by (simp add: progress_def free_keys_def time_sum_def dom)
      with inv' Some True show ?thesis by (simp add: expand_child_cases)
    qed
  qed
qed

lemma foldl_expand_order:
  assumes "search_inv L oc" and "\<forall>ch \<in> set chs. L \<le> get_g ch"
  shows "search_inv L (foldl (expand_child mw goal node) oc chs) \<and>
         (foldl (expand_child mw goal node) oc chs = oc \<or>
          progress L oc (foldl (expand_child mw goal node) oc chs))"
  using assms
proof (induction chs arbitrary: oc)
  case Nil
  then show ?case by simp
next
  case (Cons ch chs)
  obtain ol cl where oc: "oc = (ol, cl)" by (cases oc)
  let ?oc1 = "expand_child mw goal node oc ch"
  from expand_child_order [of L ol cl ch mw goal node] Cons.prems oc
  have 1: "search_inv L ?oc1" "?oc1 = oc \<or> progress L oc ?oc1" by simp_all
  from Cons.IH [OF 1(1)] Cons.prems(2)
  have 2: "search_inv L (foldl (expand_child mw goal node) ?oc1 chs)"
    "foldl (expand_child mw goal node) ?oc1 chs = ?oc1 \<or>
       progress L ?oc1 (foldl (expand_child mw goal node) ?oc1 chs)"
    by simp_all
  have "foldl (expand_child mw goal node) ?oc1 chs = oc \<or>
       progress L oc (foldl (expand_child mw goal node) ?oc1 chs)"
  proof (cases "?oc1 = oc")
    case True
    with 2(2) show ?thesis by simp
  next
    case False
    with 1(2) have p: "progress L oc ?oc1" by simp
    from 2(2) show ?thesis
    proof
      assume "foldl (expand_child mw goal node) ?oc1 chs = ?oc1"
      with p show ?thesis by simp
    next
      assume "progress L ?oc1 (foldl (expand_child mw goal node) ?oc1 chs)"
      with p show ?thesis using progress_trans by blast
    qed
  qed
  with 2(1) show ?case by simp
qed

lemma astar_next_order:
  assumes "search_inv L oc"
    and time: "\<forall>n. \<forall>ch \<in> set (gm n cs). get_g n \<le> get_g ch"
    and "astar_next gm mw goal cs oc = Some oc'"
  shows "search_inv L oc' \<and> (oc', oc) \<in> search_order L"
proof -
  from assms(3) obtain node ol where p: "heappop (fst oc) = Some (node, ol)"
    and oc': "oc' = foldl (expand_child mw goal node) (ol, snd oc) (gm node cs)"
    by (auto simp: astar_next_def split: if_splits option.splits)
  from heappop_set [OF p] heappop_length [OF p]
  have n: "node \<in> set (fst oc)" "set ol \<subseteq> set (fst oc)" "length ol < length (fst oc)" by simp_all
  with assms(1) have inv1: "search_inv L (ol, snd oc)" and gn: "L \<le> get_g node"
    by (auto simp: search_inv_def nodes_of_def)
  from time gn have "\<forall>ch \<in> set (gm node cs). L \<le> get_g ch" by force
  from foldl_expand_order [OF inv1 this, of mw goal node] oc'
  have inv': "search_inv L oc'" and c: "oc' = (ol, snd oc) \<or> progress L (ol, snd oc) oc'"
    by simp_all
  have same: "free_keys (ol, snd oc) = free_keys oc" "time_sum L (ol, snd oc) = time_sum L oc"
    by (simp_all add: free_keys_def time_sum_def)
  from c have "(oc', oc) \<in> search_order L"
  proof
    assume "oc' = (ol, snd oc)"
    with n(3) same show ?thesis by (simp add: search_order_def)
  next
    assume "progress L (ol, snd oc) oc'"
    with same show ?thesis by (auto simp: search_order_def progress_def)
  qed
  with inv' show ?thesis by simp
qed

lemma wf_search_order: "wf (search_order L)"
  unfolding search_order_def by (intro wf_inv_image wf_lex_prod wf_less_than)

lemma astar_exit_or_next:
  "astar_exit goal oc = None \<Longrightarrow> \<exists>oc'. astar_next gm mw goal cs oc = Some oc'"
  by (cases "heappop (fst oc)")
     (auto simp: astar_exit_def astar_next_def heappop_None split: if_splits)

lemma astar_loop_terminates:
  assumes time: "\<forall>n. \<forall>ch \<in> set (gm n cs). get_g n \<le> get_g ch"
  shows "search_inv L oc \<Longrightarrow> \<exists>r. astar_loop gm mw goal cs oc = Some r"
proof (induction oc rule: wf_induct_rule [OF wf_search_order [of L]])
  case (1 oc)
  show ?case
  proof (cases "astar_exit goal oc")
    case (Some r)
    then have "astar_loop gm mw goal cs oc = Some r" by (subst astar_loop_unfold) simp
    then show ?thesis by blast
  next
    case None
    from astar_exit_or_next [OF None] obtain oc' where n: "astar_next gm mw goal cs oc = Some oc'"
      by blast
    from astar_next_order [OF 1(2) time n] have "search_inv L oc'" "(oc', oc) \<in> search_order L"
      by simp_all
    from 1(1) [OF this(2,1)] obtain r where "astar_loop gm mw goal cs oc' = Some r" by blast
    with None n have "astar_loop gm mw goal cs oc = Some r" by (subst astar_loop_unfold) simp
    then show ?thesis by blast
  qed
qed

lemma get_g_compute_cost [simp]: "get_g (AStar_compute_cost goal s) = get_g s"
  by (simp add: AStar_compute_cost_def set_cost_def)

lemma search_inv_start: "search_inv (get_g start) (astar_start mw goal start)"
proof -
  have "dom (snd (astar_start mw goal start)) \<subseteq> hash_range"
    by (simp add: astar_start_def State_hash_range)
  then show ?thesis
    unfolding search_inv_def by simp
qed

lemma AStar_search_terminates:
  assumes "\<forall>n. \<forall>ch \<in> set (a_map a n cs). get_g n \<le> get_g ch"
  shows "\<exists>r a'. AStar_search mw a start goal cs = Some (r, a')"
proof -
  from astar_loop_terminates [of "a_map a" cs "get_g start" "astar_start mw goal start" mw goal]
    assms search_inv_start [of start mw goal]
  obtain r where "astar_loop (a_map a) mw goal cs (astar_start mw goal start) = Some r"
    by blast
  then show ?thesis
    unfolding AStar_search_loop by (cases r) auto
qed

subsection \<open>The two exits of the search\<close>

lemma parent_chain_unfold:
  "parent_chain s = (case get_parent s of None \<Rightarrow> [s] | Some p \<Rightarrow> s # parent_chain p)"
  by (cases s; cases "get_parent s") auto

lemma parent_chain_hd: "\<exists>rest. parent_chain s = s # rest"
  by (subst parent_chain_unfold) (simp split: option.splits)

lemma parent_chain_make_node [simp]:
  "parent_chain (make_node goal node ch) = make_node goal node ch # parent_chain node"
  by (subst parent_chain_unfold) simp

lemma linked_from_append:
  "linked_from q (xs @ [n]) = (linked_from q xs \<and> get_parent n = Some (last (q # xs)))"
  by (induction xs arbitrary: q) auto

lemma linked_path_append:
  "linked_path xs \<Longrightarrow> get_parent n = Some (last xs) \<Longrightarrow> linked_path (xs @ [n])"
  by (cases xs) (auto simp: linked_from_append)

lemma linked_recover_path: "linked_path (recover_path n) \<and> last (recover_path n) = n"
proof (induction n rule: parent_chain.induct)
  case (1 x y g c)
  then show ?case by (simp add: recover_path_def)
next
  case (2 x y g c p)
  from parent_chain_hd [of p] obtain rest where r: "parent_chain p = p # rest" by blast
  with 2 have "linked_path (rev rest @ [p])" by (simp add: recover_path_def)
  from linked_path_append [OF this, of "State x y g c (Some p)"] r
  show ?case by (simp add: recover_path_def)
qed

lemma recover_path_hd: "hd (recover_path n) = last (parent_chain n)"
  using parent_chain_hd [of n] by (auto simp: recover_path_def hd_rev)

lemma exits_exclusive:
  assumes "astar_iter gm mw goal cs n oc0 = Some oc" "astar_exit goal oc = Some r"
    and "astar_iter gm mw goal cs n' oc0 = Some oc'" "astar_exit goal oc' = Some r'"
  shows "r = r'"
  using astar_iter_returns [OF assms(1,2)] astar_iter_returns [OF assms(3,4)] by simp

lemma AStar_search_success_iff:
  "(map_option fst (AStar_search mw a start goal cs) = Some (c, Some path)) =
   (\<exists>node. goal_popped (a_map a) mw goal cs start node \<and> c = get_g node \<and>
           path = recover_path node)"
proof
  assume "map_option fst (AStar_search mw a start goal cs) = Some (c, Some path)"
  then obtain a' where "AStar_search mw a start goal cs = Some ((c, Some path), a')" by auto
  then obtain n oc ol cl where
    i: "astar_iter (a_map a) mw goal cs n (astar_start mw goal start) = Some oc"
    and e: "astar_exit goal oc = Some ((c, Some path), ol, cl)"
    unfolding AStar_search_iff by blast
  from astar_exit_success [OF e] i
  show "\<exists>node. goal_popped (a_map a) mw goal cs start node \<and> c = get_g node \<and>
           path = recover_path node"
    unfolding goal_popped_def by blast
next
  assume "\<exists>node. goal_popped (a_map a) mw goal cs start node \<and> c = get_g node \<and>
           path = recover_path node"
  then obtain node n oc ol where
    i: "astar_iter (a_map a) mw goal cs n (astar_start mw goal start) = Some oc"
    and p: "heappop (fst oc) = Some (node, ol)" "is_goal node goal"
    and c: "c = get_g node" "path = recover_path node"
    unfolding goal_popped_def by blast
  from astar_exit_popped [OF p] c
  have "astar_exit goal oc = Some ((c, Some path), ol, snd oc)" by simp
  with i have "\<exists>a'. AStar_search mw a start goal cs = Some ((c, Some path), a')"
    unfolding AStar_search_iff by blast
  then show "map_option fst (AStar_search mw a start goal cs) = Some (c, Some path)" by auto
qed

lemma AStar_search_failure_iff:
  "(map_option fst (AStar_search mw a start goal cs) = Some (c, None)) =
   (c = - 1 \<and> queue_exhausted (a_map a) mw goal cs start)"
proof
  assume "map_option fst (AStar_search mw a start goal cs) = Some (c, None)"
  then obtain a' where "AStar_search mw a start goal cs = Some ((c, None), a')" by auto
  then obtain n oc ol cl where
    i: "astar_iter (a_map a) mw goal cs n (astar_start mw goal start) = Some oc"
    and e: "astar_exit goal oc = Some ((c, None), ol, cl)"
    unfolding AStar_search_iff by blast
  with astar_exit_failure [of goal oc c ol cl]
  show "c = - 1 \<and> queue_exhausted (a_map a) mw goal cs start"
    unfolding queue_exhausted_def by blast
next
  assume "c = - 1 \<and> queue_exhausted (a_map a) mw goal cs start"
  then obtain n oc where c: "c = - 1"
    and i: "astar_iter (a_map a) mw goal cs n (astar_start mw goal start) = Some oc"
    and e: "fst oc = []"
    unfolding queue_exhausted_def by blast
  from e c have "astar_exit goal oc = Some ((c, None), [], snd oc)"
    by (simp add: astar_exit_failure)
  with i have "\<exists>a'. AStar_search mw a start goal cs = Some ((c, None), a')"
    unfolding AStar_search_iff by blast
  then show "map_option fst (AStar_search mw a start goal cs) = Some (c, None)" by auto
qed

lemma goal_popped_invariant:
  assumes "goal_popped gm mw goal cs start node"
    and "P (AStar_compute_cost goal start)"
    and "\<And>n ch. P n \<Longrightarrow> \<not> is_goal n goal \<Longrightarrow> ch \<in> set (gm n cs) \<Longrightarrow> P (make_node goal n ch)"
  shows "P node \<and> is_goal node goal"
proof -
  from assms(1) obtain n oc ol where
    i: "astar_iter gm mw goal cs n (astar_start mw goal start) = Some oc"
    and p: "heappop (fst oc) = Some (node, ol)" "is_goal node goal"
    unfolding goal_popped_def by blast
  have "\<forall>x \<in> nodes_of (astar_start mw goal start). P x" using assms(2) by simp
  from astar_iter_invariant [of gm mw goal cs n _ oc P, OF i this assms(3)]
  have "\<forall>x \<in> nodes_of oc. P x" by blast
  with heappop_set [OF p(1)] p(2) show ?thesis by (auto simp: nodes_of_def)
qed


lemma grid_successors_child:
  assumes "ch \<in> set (grid_successors w h blk n cs)"
  shows "get_g ch = get_g n + 1 \<and> get_cost ch = 0 \<and> get_parent ch = None \<and>
         0 \<le> get_x ch \<and> get_x ch < w \<and> 0 \<le> get_y ch \<and> get_y ch < h \<and>
         \<not> blk (get_x ch, get_y ch) \<and> \<not> forbidden cs (get_x ch, get_y ch) (get_g ch) \<and>
         \<bar>get_x ch - get_x n\<bar> + \<bar>get_y ch - get_y n\<bar> \<le> 1"
proof -
  from assms obtain dx dy where m: "(dx, dy) \<in> set grid_moves"
    and f: "0 \<le> get_x n + dx" "get_x n + dx < w" "0 \<le> get_y n + dy" "get_y n + dy < h"
      "\<not> blk (get_x n + dx, get_y n + dy)"
      "\<not> forbidden cs (get_x n + dx, get_y n + dy) (get_g n + 1)"
    and ch: "ch = set_g (State_init (get_x n + dx) (get_y n + dy)) (get_g n + 1)"
    by (auto simp: grid_successors_def)
  from m have "\<bar>dx\<bar> + \<bar>dy\<bar> \<le> 1" by (auto simp: grid_moves_def)
  with f ch show ?thesis by (simp add: set_g_def State_init_def)
qed

lemma is_goal_any_time: "is_goal (set_g node t) goal = is_goal node goal"
  by (simp add: is_goal_def set_g_def)

lemma waiting_search:
  "map_option fst (AStar_search 3 (AStar_init corridor3) (State_init 0 0) (State_init 1 0)
     waiting_constraints) = Some (2, Some waiting_path)"
  by code_simp

lemma corridor3_pruned:
  "\<forall>n. \<forall>ch \<in> set (a_map (AStar_init corridor3) n cs).
     \<not> forbidden cs (get_x ch, get_y ch) (get_g ch)"
proof (intro allI ballI)
  fix n ch
  assume "ch \<in> set (a_map (AStar_init corridor3) n cs)"
  then have "ch \<in> set (grid_successors 3 1 (\<lambda>c. False) n cs)"
    by (simp add: AStar_init_def corridor3_def)
  from grid_successors_child [OF this]
  show "\<not> forbidden cs (get_x ch, get_y ch) (get_g ch)" by blast
qed

lemma corridor3_time:
  "\<forall>n. \<forall>ch \<in> set (a_map (AStar_init corridor3) n cs). get_g n \<le> get_g ch"
proof (intro allI ballI)
  fix n ch
  assume "ch \<in> set (a_map (AStar_init corridor3) n cs)"
  then have "ch \<in> set (grid_successors 3 1 (\<lambda>c. False) n cs)"
    by (simp add: AStar_init_def corridor3_def)
  from grid_successors_child [OF this]
  show "get_g n \<le> get_g ch" by simp
qed


text \<open>
  C4, as stated, fails at the start state. With start and goal both at \<open>(0,0)\<close> and
  \<open>(0,0)\<close> forbidden at time 0, the search returns the path that consists of the start
  state, at a forbidden time: the start state is popped and passes the goal test before
  any constraint is looked at.
\<close>

theorem start_at_forbidden_goal:
  "map_option fst (AStar_search 3 (AStar_init corridor3) (State_init 0 0) (State_init 0 0)
     [(0, 0) \<mapsto> {0}]) = Some (0, Some [State 0 0 0 0 None]) \<and>
   forbidden [(0, 0) \<mapsto> {0}] (get_x (State 0 0 0 0 None), get_y (State 0 0 0 0 None))
     (get_g (State 0 0 0 0 None))"
proof -
  have "map_option fst (AStar_search 3 (AStar_init corridor3) (State_init 0 0) (State_init 0 0)
     [(0, 0) \<mapsto> {0}]) = Some (0, Some [State 0 0 0 0 None])"
    by code_simp
  then show ?thesis by (simp add: forbidden_def)
qed


text \<open>
  C4, amended. The search returns a cost and a path exactly when a state popped from OPEN
  is at the cell of the goal, and then they are the time of that state and the path
  recovered from it; the goal test does not look at the time. The popped state is the
  last state of the path. If the map never generates a successor at a forbidden (cell,
  time) pair, then this state is the start state itself, which is never tested against
  the constraints, or its time is not forbidden for its cell: a forbidden arrival is
  never generated, so the search goes on until a permitted one is popped.
\<close>

theorem AStar_search_goal_test:
  assumes "\<forall>n. \<forall>ch \<in> set (a_map a n cs). \<not> forbidden cs (get_x ch, get_y ch) (get_g ch)"
  shows "((map_option fst (AStar_search mw a start goal cs) = Some (c, Some path)) =
          (\<exists>node. goal_popped (a_map a) mw goal cs start node \<and> c = get_g node \<and>
                  path = recover_path node)) \<and>
         (\<forall>node. goal_popped (a_map a) mw goal cs start node \<longrightarrow>
            is_goal node goal \<and> (\<forall>t. is_goal (set_g node t) goal) \<and>
            last (recover_path node) = node \<and>
            (node = AStar_compute_cost goal start \<or>
             \<not> forbidden cs (get_x node, get_y node) (get_g node)))"
proof (intro conjI allI impI)
  show "(map_option fst (AStar_search mw a start goal cs) = Some (c, Some path)) =
          (\<exists>node. goal_popped (a_map a) mw goal cs start node \<and> c = get_g node \<and>
                  path = recover_path node)"
    by (rule AStar_search_success_iff)
next
  fix node t
  assume gp: "goal_popped (a_map a) mw goal cs start node"
  let ?P = "\<lambda>n. n = AStar_compute_cost goal start \<or>
                 \<not> forbidden cs (get_x n, get_y n) (get_g n)"
  have "?P node \<and> is_goal node goal"
  proof (rule goal_popped_invariant [OF gp])
    show "?P (AStar_compute_cost goal start)" by simp
  next
    fix n ch
    assume "ch \<in> set (a_map a n cs)"
    with assms show "?P (make_node goal n ch)" by simp
  qed
  then show "is_goal node goal" "is_goal (set_g node t) goal"
    "node = AStar_compute_cost goal start \<or> \<not> forbidden cs (get_x node, get_y node) (get_g node)"
    by (simp_all add: is_goal_any_time)
  show "last (recover_path node) = node" by (simp add: linked_recover_path)
qed

theorem AStar_search_goal_test_witness:
  "map_option fst (AStar_search 3 (AStar_init corridor3) (State_init 0 0) (State_init 1 0)
     waiting_constraints) = Some (2, Some waiting_path) \<and>
   goal_popped corridor3 3 (State_init 1 0) waiting_constraints (State_init 0 0) (last waiting_path) \<and>
   forbidden waiting_constraints (1, 0) 1 \<and>
   \<not> forbidden waiting_constraints (get_x (last waiting_path), get_y (last waiting_path))
       (get_g (last waiting_path))"
proof -
  note t = AStar_search_goal_test [OF corridor3_pruned, where cs = waiting_constraints and mw = 3
      and start = "State_init 0 0" and goal = "State_init 1 0" and c = 2 and path = waiting_path]
  from t waiting_search obtain node where
    gp: "goal_popped (a_map (AStar_init corridor3)) 3 (State_init 1 0) waiting_constraints
           (State_init 0 0) node"
    and p: "waiting_path = recover_path node"
    by blast
  from t gp have l: "last (recover_path node) = node"
    and f: "node = AStar_compute_cost (State_init 1 0) (State_init 0 0) \<or>
            \<not> forbidden waiting_constraints (get_x node, get_y node) (get_g node)"
    by blast+
  from l p have n: "node = last waiting_path" by simp
  have "last waiting_path \<noteq> AStar_compute_cost (State_init 1 0) (State_init 0 0)"
    by (simp add: waiting_path_def AStar_compute_cost_def set_cost_def State_init_def)
  with f n have "\<not> forbidden waiting_constraints (get_x (last waiting_path), get_y (last waiting_path))
       (get_g (last waiting_path))" by simp
  moreover have "forbidden waiting_constraints (1, 0) 1"
    by (simp add: forbidden_def waiting_constraints_def)
  moreover from gp n have "goal_popped corridor3 3 (State_init 1 0) waiting_constraints
      (State_init 0 0) (last waiting_path)"
    by (simp add: AStar_init_def)
  ultimately show ?thesis using waiting_search by simp
qed


text \<open>
  C5. Let time never go backwards from a state to its successors, and let the start have
  a time of at least 0 and no parent. Then the search returns. Its result is the failure
  result \<open>(-1, None)\<close> exactly when OPEN is exhausted without a state at the goal having
  been popped. In every other case a state at the goal was popped, the cost is its time,
  which is at least 0, and the path is the chain of parents of that state reversed: it
  begins with the start state (with its cost set), ends with the popped state, and each
  state is the parent of the next.
\<close>

theorem AStar_search_two_exits:
  assumes "\<forall>n. \<forall>ch \<in> set (a_map a n cs). get_g n \<le> get_g ch"
    and "0 \<le> get_g start" and "get_parent start = None"
  shows "\<exists>r a'. AStar_search mw a start goal cs = Some (r, a') \<and>
           ((r = (- 1, None)) = queue_exhausted (a_map a) mw goal cs start) \<and>
           (r \<noteq> (- 1, None) \<longrightarrow>
              (\<exists>node. goal_popped (a_map a) mw goal cs start node \<and>
                 r = (get_g node, Some (recover_path node)) \<and> 0 \<le> get_g node \<and>
                 is_goal node goal \<and>
                 recover_path node = rev (parent_chain node) \<and>
                 hd (recover_path node) = AStar_compute_cost goal start \<and>
                 last (recover_path node) = node \<and>
                 linked_path (recover_path node)))"
proof -
  from AStar_search_terminates [OF assms(1), of mw start goal]
  obtain r a' where s: "AStar_search mw a start goal cs = Some (r, a')" by blast
  then have m: "map_option fst (AStar_search mw a start goal cs) = Some r" by simp
  obtain c p where r: "r = (c, p)" by (cases r)
  show ?thesis
  proof (cases p)
    case None
    with m r AStar_search_failure_iff [of mw a start goal cs c]
    have "c = - 1" "queue_exhausted (a_map a) mw goal cs start" by simp_all
    with s r None show ?thesis by simp
  next
    case (Some path)
    with m r AStar_search_success_iff [of mw a start goal cs c path]
    obtain node where gp: "goal_popped (a_map a) mw goal cs start node"
      and c: "c = get_g node" "path = recover_path node"
      by auto
    have ne: "\<not> queue_exhausted (a_map a) mw goal cs start"
    proof
      assume "queue_exhausted (a_map a) mw goal cs start"
      with AStar_search_failure_iff [of mw a start goal cs "- 1"]
      have "map_option fst (AStar_search mw a start goal cs) = Some (- 1, None)" by simp
      with m r Some show False by simp
    qed
    let ?P = "\<lambda>n. 0 \<le> get_g n \<and> last (parent_chain n) = AStar_compute_cost goal start"
    have "?P node \<and> is_goal node goal"
    proof (rule goal_popped_invariant [OF gp])
      show "?P (AStar_compute_cost goal start)"
        using assms(2,3)
        by (subst parent_chain_unfold) (simp add: AStar_compute_cost_def set_cost_def)
    next
      fix n ch
      assume "?P n" "ch \<in> set (a_map a n cs)"
      with assms(1) have "0 \<le> get_g ch" by force
      with \<open>?P n\<close> parent_chain_hd [of n] show "?P (make_node goal n ch)" by auto
    qed
    with gp c r Some s ne linked_recover_path [of node] recover_path_hd [of node]
    show ?thesis by (auto simp: recover_path_def)
  qed
qed

theorem AStar_search_two_exits_witness:
  "\<exists>a'. AStar_search 3 (AStar_init corridor3) (State_init 0 0) (State_init 1 0)
           waiting_constraints = Some ((2, Some waiting_path), a') \<and>
         \<not> queue_exhausted corridor3 3 (State_init 1 0) waiting_constraints (State_init 0 0) \<and>
         hd waiting_path = AStar_compute_cost (State_init 1 0) (State_init 0 0) \<and>
         is_goal (last waiting_path) (State_init 1 0) \<and> linked_path waiting_path"
proof -
  from AStar_search_two_exits [OF corridor3_time, where cs = waiting_constraints and mw = 3
      and start = "State_init 0 0" and goal = "State_init 1 0"]
  obtain r a' where
    s: "AStar_search 3 (AStar_init corridor3) (State_init 0 0) (State_init 1 0)
           waiting_constraints = Some (r, a')"
    and e: "(r = (- 1, None)) =
       queue_exhausted (a_map (AStar_init corridor3)) 3 (State_init 1 0) waiting_constraints (State_init 0 0)"
    and p: "r \<noteq> (- 1, None) \<longrightarrow>
              (\<exists>node. r = (get_g node, Some (recover_path node)) \<and>
                 is_goal node (State_init 1 0) \<and>
                 hd (recover_path node) = AStar_compute_cost (State_init 1 0) (State_init 0 0) \<and>
                 last (recover_path node) = node \<and>
                 linked_path (recover_path node))"
    by (auto simp: State_init_def)
  from s waiting_search have r: "r = (2, Some waiting_path)" by simp
  with e p s show ?thesis by (auto simp: AStar_init_def)
qed

subsection \<open>The priority queue: the heap order\<close>

lemma heap_ok_iff:
  "heap_ok heap =
     (\<forall>i. 0 < i \<and> i < length heap \<longrightarrow> get_cost (heap ! heap_parent i) \<le> get_cost (heap ! i))"
  by (auto simp: heap_ok_def list_all_iff)

lemma heap_parent_less: "0 < i \<Longrightarrow> heap_parent i < i"
  by (simp add: heap_parent_def)

lemma heap_ok_min:
  assumes "heap_ok heap" "i < length heap"
  shows "get_cost (heap ! 0) \<le> get_cost (heap ! i)"
  using assms(2)
proof (induction i rule: less_induct)
  case (less i)
  show ?case
  proof (cases "i = 0")
    case True
    then show ?thesis by simp
  next
    case False
    then have p: "heap_parent i < i" by (simp add: heap_parent_less)
    with less.prems have "heap_parent i < length heap" by simp
    from less.IH [OF p this] assms(1) False less.prems show ?thesis
      by (force simp: heap_ok_iff)
  qed
qed

lemma siftdown_loop_heap_ok:
  assumes "pos < length heap"
    and "\<forall>i. 0 < i \<and> i < length heap \<and> i \<noteq> pos \<longrightarrow>
           get_cost (heap ! heap_parent i) \<le> get_cost (heap ! i)"
    and "\<forall>c. 0 < c \<and> c < length heap \<and> heap_parent c = pos \<longrightarrow> get_cost x \<le> get_cost (heap ! c)"
    and "\<forall>c. 0 < pos \<and> 0 < c \<and> c < length heap \<and> heap_parent c = pos \<longrightarrow>
           get_cost (heap ! heap_parent pos) \<le> get_cost (heap ! c)"
  shows "heap_ok (siftdown_loop heap 0 x pos)"
  using assms
proof (induction pos arbitrary: heap rule: less_induct)
  case (less pos)
  let ?pp = "heap_parent pos"
  note A = less.prems(2) and B = less.prems(3) and C = less.prems(4)
  show ?case
  proof (cases "0 < pos \<and> State_lt x (heap ! ?pp)")
    case True
    then have pp: "?pp < pos" "0 < pos" and lt: "get_cost x < get_cost (heap ! ?pp)"
      by (simp_all add: heap_parent_less State_lt_def)
    let ?h = "heap[pos := heap ! ?pp]"
    have len: "?pp < length ?h" using pp less.prems(1) by simp
    have nth: "?h ! i = (if i = pos then heap ! ?pp else heap ! i)" if "i < length heap" for i
      using that by (simp add: nth_list_update)
    have A': "\<forall>i. 0 < i \<and> i < length ?h \<and> i \<noteq> ?pp \<longrightarrow>
           get_cost (?h ! heap_parent i) \<le> get_cost (?h ! i)"
    proof (intro allI impI)
      fix i assume i: "0 < i \<and> i < length ?h \<and> i \<noteq> ?pp"
      then have il: "i < length heap" "heap_parent i < length heap"
        using heap_parent_less [of i] by simp_all
      show "get_cost (?h ! heap_parent i) \<le> get_cost (?h ! i)"
      proof (cases "i = pos")
        case True
        with pp il show ?thesis by (simp add: nth)
      next
        case ip: False
        show ?thesis
        proof (cases "heap_parent i = pos")
          case True
          with C pp i il have "get_cost (heap ! ?pp) \<le> get_cost (heap ! i)" by simp
          with True ip il show ?thesis by (simp add: nth)
        next
          case False
          with A i ip il show ?thesis by (simp add: nth)
        qed
      qed
    qed
    have B': "\<forall>c. 0 < c \<and> c < length ?h \<and> heap_parent c = ?pp \<longrightarrow> get_cost x \<le> get_cost (?h ! c)"
    proof (intro allI impI)
      fix c assume c: "0 < c \<and> c < length ?h \<and> heap_parent c = ?pp"
      show "get_cost x \<le> get_cost (?h ! c)"
      proof (cases "c = pos")
        case True
        with lt c show ?thesis by (simp add: nth)
      next
        case False
        with A c have "get_cost (heap ! ?pp) \<le> get_cost (heap ! c)" by auto
        with lt False c show ?thesis by (simp add: nth)
      qed
    qed
    have C': "\<forall>c. 0 < ?pp \<and> 0 < c \<and> c < length ?h \<and> heap_parent c = ?pp \<longrightarrow>
           get_cost (?h ! heap_parent ?pp) \<le> get_cost (?h ! c)"
    proof (intro allI impI)
      fix c assume c: "0 < ?pp \<and> 0 < c \<and> c < length ?h \<and> heap_parent c = ?pp"
      then have gp: "heap_parent ?pp < ?pp" by (simp add: heap_parent_less)
      with pp less.prems(1) have gl: "heap_parent ?pp < length heap" "heap_parent ?pp \<noteq> pos" by simp_all
      from A c pp less.prems(1) have 1: "get_cost (heap ! heap_parent ?pp) \<le> get_cost (heap ! ?pp)"
        by simp
      show "get_cost (?h ! heap_parent ?pp) \<le> get_cost (?h ! c)"
      proof (cases "c = pos")
        case True
        with 1 gl c show ?thesis by (simp add: nth)
      next
        case False
        with A c have "get_cost (heap ! ?pp) \<le> get_cost (heap ! c)" by auto
        with 1 False gl c show ?thesis by (simp add: nth)
      qed
    qed
    have "siftdown_loop heap 0 x pos = siftdown_loop ?h 0 x ?pp"
      using True by (subst siftdown_loop_step) (simp add: heap_parent_def)
    with less.IH [OF pp(1) len A' B' C'] show ?thesis by simp
  next
    case False
    have "heap_ok (heap[pos := x])"
      unfolding heap_ok_iff
    proof (intro allI impI)
      fix i assume i: "0 < i \<and> i < length (heap[pos := x])"
      then have il: "i < length heap" "heap_parent i < length heap" "heap_parent i \<noteq> i"
        using heap_parent_less [of i] by simp_all
      show "get_cost (heap[pos := x] ! heap_parent i) \<le> get_cost (heap[pos := x] ! i)"
      proof (cases "i = pos")
        case True
        with False i have "get_cost (heap ! ?pp) \<le> get_cost x" by (simp add: State_lt_def)
        with True il show ?thesis by (simp add: nth_list_update)
      next
        case ip: False
        show ?thesis
        proof (cases "heap_parent i = pos")
          case True
          with B i il ip show ?thesis by (simp add: nth_list_update)
        next
          case False
          with A i ip il show ?thesis by (simp add: nth_list_update)
        qed
      qed
    qed
    moreover have "siftdown_loop heap 0 x pos = heap[pos := x]"
      using False by (subst siftdown_loop_step) (auto simp: heap_parent_def)
    ultimately show ?thesis by simp
  qed
qed

lemma heappush_heap_ok:
  assumes "heap_ok heap"
  shows "heap_ok (heappush heap item)"
proof -
  let ?h = "heap @ [item]" and ?pos = "length heap"
  have leaf: "\<not> (0 < c \<and> c < length ?h \<and> heap_parent c = ?pos)" for c
    by (auto simp: heap_parent_def)
  have A: "\<forall>i. 0 < i \<and> i < length ?h \<and> i \<noteq> ?pos \<longrightarrow>
           get_cost (?h ! heap_parent i) \<le> get_cost (?h ! i)"
  proof (intro allI impI)
    fix i assume i: "0 < i \<and> i < length ?h \<and> i \<noteq> ?pos"
    then have "i < length heap" "heap_parent i < length heap"
      using heap_parent_less [of i] by simp_all
    with assms i show "get_cost (?h ! heap_parent i) \<le> get_cost (?h ! i)"
      by (simp add: heap_ok_iff nth_append)
  qed
  have "heap_ok (siftdown_loop ?h 0 item ?pos)"
    by (rule siftdown_loop_heap_ok) (use A leaf in auto)
  then show ?thesis
    by (simp add: heappush_def siftdown_def)
qed


lemma smaller_child_cases:
  assumes "2 * pos + 1 < length heap"
  shows "heap_parent (smaller_child heap (length heap) (2 * pos + 1)) = pos \<and>
         0 < smaller_child heap (length heap) (2 * pos + 1) \<and>
         smaller_child heap (length heap) (2 * pos + 1) < length heap \<and>
         (\<forall>s. 0 < s \<and> s < length heap \<and> heap_parent s = pos \<longrightarrow>
              get_cost (heap ! smaller_child heap (length heap) (2 * pos + 1)) \<le> get_cost (heap ! s))"
proof -
  have ch: "s = 2 * pos + 1 \<or> s = 2 * pos + 2" if "0 < s" "heap_parent s = pos" for s
    using that by (auto simp: heap_parent_def)
  have par: "heap_parent (2 * pos + 1) = pos" "heap_parent (2 * pos + 2) = pos"
    by (simp_all add: heap_parent_def)
  show ?thesis
  proof (cases "2 * pos + 2 < length heap \<and> \<not> State_lt (heap ! (2 * pos + 1)) (heap ! (2 * pos + 2))")
    case True
    then have sc: "smaller_child heap (length heap) (2 * pos + 1) = 2 * pos + 2"
      by (simp add: smaller_child_def)
    from True have r: "get_cost (heap ! (2 * pos + 2)) \<le> get_cost (heap ! (2 * pos + 1))"
      by (simp add: State_lt_def)
    have "get_cost (heap ! (2 * pos + 2)) \<le> get_cost (heap ! s)"
      if "0 < s" "s < length heap" "heap_parent s = pos" for s
      using ch [OF that(1,3)] r by auto
    with True par show ?thesis
      unfolding sc by simp
  next
    case False
    then have sc: "smaller_child heap (length heap) (2 * pos + 1) = 2 * pos + 1"
      by (auto simp: smaller_child_def)
    have "get_cost (heap ! (2 * pos + 1)) \<le> get_cost (heap ! s)"
      if "0 < s" "s < length heap" "heap_parent s = pos" for s
      using ch [OF that(1,3)] that(2) False by (auto simp: State_lt_def)
    with assms par show ?thesis
      unfolding sc by simp
  qed
qed

lemma siftup_loop_heap:
  assumes "pos < length heap"
    and "\<forall>i. 0 < i \<and> i < length heap \<and> heap_parent i \<noteq> pos \<longrightarrow>
           get_cost (heap ! heap_parent i) \<le> get_cost (heap ! i)"
    and "\<forall>c. 0 < pos \<and> 0 < c \<and> c < length heap \<and> heap_parent c = pos \<longrightarrow>
           get_cost (heap ! heap_parent pos) \<le> get_cost (heap ! c)"
    and "siftup_loop heap (length heap) pos (2 * pos + 1) = (heap', pos')"
  shows "length heap' = length heap \<and> pos' < length heap \<and> length heap \<le> 2 * pos' + 1 \<and>
         (\<forall>i. 0 < i \<and> i < length heap \<and> heap_parent i \<noteq> pos' \<longrightarrow>
           get_cost (heap' ! heap_parent i) \<le> get_cost (heap' ! i))"
  using assms
proof (induction "length heap - pos" arbitrary: heap pos rule: less_induct)
  case less
  note D = less.prems(2) and E = less.prems(3)
  show ?case
  proof (cases "2 * pos + 1 < length heap")
    case False
    with less.prems(4) have "heap' = heap" "pos' = pos"
      by (subst (asm) siftup_loop_step, simp)+
    with less.prems False show ?thesis by simp
  next
    case True
    let ?c = "smaller_child heap (length heap) (2 * pos + 1)"
    let ?h = "heap[pos := heap ! ?c]"
    from smaller_child_cases [OF True]
    have c: "heap_parent ?c = pos" "0 < ?c" "?c < length heap"
      and small: "\<forall>s. 0 < s \<and> s < length heap \<and> heap_parent s = pos \<longrightarrow>
              get_cost (heap ! ?c) \<le> get_cost (heap ! s)"
      by simp_all
    from c have pc: "pos < ?c" using heap_parent_less [of ?c] by simp
    have nth: "?h ! i = (if i = pos then heap ! ?c else heap ! i)" if "i < length heap" for i
      using that by (simp add: nth_list_update)
    have rec: "siftup_loop ?h (length ?h) ?c (2 * ?c + 1) = (heap', pos')"
      using less.prems(4) True by (subst (asm) siftup_loop_step) simp
    have D': "\<forall>i. 0 < i \<and> i < length ?h \<and> heap_parent i \<noteq> ?c \<longrightarrow>
           get_cost (?h ! heap_parent i) \<le> get_cost (?h ! i)"
    proof (intro allI impI)
      fix i assume i: "0 < i \<and> i < length ?h \<and> heap_parent i \<noteq> ?c"
      then have il: "i < length heap" "heap_parent i < length heap" "heap_parent i < i"
        using heap_parent_less [of i] by simp_all
      show "get_cost (?h ! heap_parent i) \<le> get_cost (?h ! i)"
      proof (cases "heap_parent i = pos")
        case True
        with small i il have "get_cost (heap ! ?c) \<le> get_cost (heap ! i)" by simp
        with True il show ?thesis by (simp add: nth)
      next
        case np: False
        show ?thesis
        proof (cases "i = pos")
          case True
          with E i c have "get_cost (heap ! heap_parent pos) \<le> get_cost (heap ! ?c)" by simp
          with True il show ?thesis by (simp add: nth)
        next
          case False
          with D i np il show ?thesis by (simp add: nth)
        qed
      qed
    qed
    have E': "\<forall>gc. 0 < ?c \<and> 0 < gc \<and> gc < length ?h \<and> heap_parent gc = ?c \<longrightarrow>
           get_cost (?h ! heap_parent ?c) \<le> get_cost (?h ! gc)"
    proof (intro allI impI)
      fix gc assume g: "0 < ?c \<and> 0 < gc \<and> gc < length ?h \<and> heap_parent gc = ?c"
      with pc have "heap_parent gc \<noteq> pos" "gc \<noteq> pos" using heap_parent_less [of gc] by auto
      with D g have "get_cost (heap ! ?c) \<le> get_cost (heap ! gc)" by auto
      with g c \<open>gc \<noteq> pos\<close> less.prems(1) show "get_cost (?h ! heap_parent ?c) \<le> get_cost (?h ! gc)"
        by (simp add: nth)
    qed
    have dec: "length ?h - ?c < length heap - pos" using pc c by simp
    have cl: "?c < length ?h" using c by simp
    from less.hyps [OF dec cl D' E' rec] show ?thesis by simp
  qed
qed

lemma siftup_heap_ok:
  assumes "heap \<noteq> []"
    and "\<forall>i. 0 < i \<and> i < length heap \<and> heap_parent i \<noteq> 0 \<longrightarrow>
           get_cost (heap ! heap_parent i) \<le> get_cost (heap ! i)"
  shows "heap_ok (siftup heap 0)"
proof -
  obtain heap' pos' where r: "siftup_loop heap (length heap) 0 (2 * 0 + 1) = (heap', pos')"
    by (cases "siftup_loop heap (length heap) 0 (2 * 0 + 1)")
  from assms(1) have l: "0 < length heap" by simp
  from siftup_loop_heap [OF l _ _ r] assms(2)
  have p: "length heap' = length heap" "pos' < length heap" "length heap \<le> 2 * pos' + 1"
    and D: "\<forall>i. 0 < i \<and> i < length heap \<and> heap_parent i \<noteq> pos' \<longrightarrow>
           get_cost (heap' ! heap_parent i) \<le> get_cost (heap' ! i)"
    by simp_all
  let ?h = "heap'[pos' := heap ! 0]"
  have leaf: "\<not> (0 < c \<and> c < length ?h \<and> heap_parent c = pos')" for c
    using p by (auto simp: heap_parent_def)
  have A: "\<forall>i. 0 < i \<and> i < length ?h \<and> i \<noteq> pos' \<longrightarrow>
           get_cost (?h ! heap_parent i) \<le> get_cost (?h ! i)"
  proof (intro allI impI)
    fix i assume i: "0 < i \<and> i < length ?h \<and> i \<noteq> pos'"
    with leaf [of i] have "heap_parent i \<noteq> pos'" by blast
    with D i p show "get_cost (?h ! heap_parent i) \<le> get_cost (?h ! i)"
      by (simp add: nth_list_update)
  qed
  have "heap_ok (siftdown_loop ?h 0 (heap ! 0) pos')"
    by (rule siftdown_loop_heap_ok) (use A leaf p in auto)
  moreover have "siftup heap 0 = siftdown_loop ?h 0 (heap ! 0) pos'"
    using r p by (simp add: siftup_def siftdown_def Let_def)
  ultimately show ?thesis by simp
qed

lemma heappop_heap_ok:
  assumes "heap_ok heap" and "heappop heap = Some (x, heap')"
  shows "heap_ok heap' \<and> (\<forall>y \<in> set heap. get_cost x \<le> get_cost y)"
proof -
  from assms(2) have ne: "heap \<noteq> []" by (auto simp: heappop_def)
  have x0: "x = heap ! 0"
  proof (cases "butlast heap = []")
    case True
    with ne have "heap = [last heap]" by (metis append_butlast_last_id append_Nil)
    moreover from True assms(2) ne have "x = last heap" by (auto simp: heappop_def Let_def)
    ultimately show ?thesis by (metis nth_Cons_0)
  next
    case False
    with assms(2) ne have "x = butlast heap ! 0" by (auto simp: heappop_def Let_def)
    moreover have "0 < length (butlast heap)" using False by (cases "butlast heap") simp_all
    ultimately show ?thesis by (simp add: nth_butlast)
  qed
  have min: "\<forall>y \<in> set heap. get_cost x \<le> get_cost y"
    using heap_ok_min [OF assms(1)] x0 by (auto simp: in_set_conv_nth)
  have "heap_ok heap'"
  proof (cases "butlast heap = []")
    case True
    with assms(2) ne have "heap' = []" by (auto simp: heappop_def Let_def)
    then show ?thesis by (simp add: heap_ok_def)
  next
    case False
    let ?b = "(butlast heap)[0 := last heap]"
    from False assms(2) ne have h': "heap' = siftup ?b 0" by (auto simp: heappop_def Let_def)
    have "\<forall>i. 0 < i \<and> i < length ?b \<and> heap_parent i \<noteq> 0 \<longrightarrow>
           get_cost (?b ! heap_parent i) \<le> get_cost (?b ! i)"
    proof (intro allI impI)
      fix i assume i: "0 < i \<and> i < length ?b \<and> heap_parent i \<noteq> 0"
      then have il: "i < length heap - 1" "heap_parent i < i" "0 < i" "i < length heap"
        using heap_parent_less [of i] by auto
      with assms(1) have "get_cost (heap ! heap_parent i) \<le> get_cost (heap ! i)"
        unfolding heap_ok_iff by blast
      with il i show "get_cost (?b ! heap_parent i) \<le> get_cost (?b ! i)"
        by (simp add: nth_butlast)
    qed
    moreover from False have "?b \<noteq> []" by simp
    ultimately show ?thesis unfolding h' by (intro siftup_heap_ok) 
  qed
  with min show ?thesis by simp
qed

end
